theory Spec2Isabelle
  imports Complex_Main "HOL-Library.Word" "HOL-Library.Signed_Division"
begin

section \<open>Bin carousel firmware: motion, gate, inventory and command queue\<close>

text \<open>
  The embedding follows \<^verbatim>\<open>ESP32_InventoryOutputs.ino\<close>, the revision that holds
  every mechanism of the specification (deferred command queue, inventory log line).
  The unnamed revision with the same queue differs from it in three places only:
  its \<^verbatim>\<open>homeRoutine\<close> does not clear the queue, its
  \<^verbatim>\<open>runInventorySequence\<close> prints no log line, and its \<^verbatim>\<open>loop\<close> frames
  lines with an Arduino \<^verbatim>\<open>String\<close> and polls the E-stop first. All other functions
  modelled here are the same text in both.

  Conventions.
  \<^item> \<^verbatim>\<open>int\<close> and \<^verbatim>\<open>long\<close> counters are \<open>int\<close>: every one of them is
    bounded by a guard far below \<open>2^31\<close>. \<^verbatim>\<open>unsigned long\<close> timestamps are
    \<open>32 word\<close>, so that \<^verbatim>\<open>millis() - t\<close> wraps as on the target.
  \<^item> \<^verbatim>\<open>float\<close> values are exact rationals; \<^verbatim>\<open>NAN\<close> is \<open>None\<close>. Float
    literals carry their exact binary32 value. The rounding of each float operation is
    not modelled.
  \<^item> The pins, the clock and the serial line are inputs the firmware samples. Each is
    an oracle in the state: a function from the number of samples taken so far to the
    next sample. Delays only pass time, which the clock oracle decides, so they are
    dropped.
  \<^item> Of the text the firmware prints, the state keeps the lines a host parses: the
    classification line and the inventory log line.
\<close>

subsection \<open>Configuration constants\<close>

definition BEAM_DEBOUNCE_MS :: "32 word" where "BEAM_DEBOUNCE_MS = 20"
definition BEAM_ARM_DELAY_MS :: "32 word" where "BEAM_ARM_DELAY_MS = 2000"

definition MICROSTEP :: int where "MICROSTEP = 8"
definition FULL_STEPS_PER_REV :: int where "FULL_STEPS_PER_REV = 200"
definition STEPS_PER_REV :: int where "STEPS_PER_REV = FULL_STEPS_PER_REV * MICROSTEP"

definition SEEK_DELAY_US :: nat where "SEEK_DELAY_US = 1500"
definition OFFSET_DELAY_US :: nat where "OFFSET_DELAY_US = 1500"
definition APPROACH_DELAY_US :: nat where "APPROACH_DELAY_US = 2600"
definition APPROACH_WINDOW_STEPS :: int where "APPROACH_WINDOW_STEPS = 140"

definition PRESS_CONFIRM_POLLS :: nat where "PRESS_CONFIRM_POLLS = 5"
definition RELEASE_CONFIRM_POLLS :: nat where "RELEASE_CONFIRM_POLLS = 7"

definition MAX_STEPS_TO_FIND_INDEX :: int where
  "MAX_STEPS_TO_FIND_INDEX = STEPS_PER_REV * 3"
definition POST_HIT_ESCAPE_STEPS :: nat where "POST_HIT_ESCAPE_STEPS = 30"

definition INDEX_TO_STOP_DEG :: rat where "INDEX_TO_STOP_DEG = 31"
definition TRIM_DEG :: rat where "TRIM_DEG = - 18"

text \<open>The binary32 values of \<^verbatim>\<open>0.60f\<close>, \<^verbatim>\<open>0.20f\<close> and \<^verbatim>\<open>0.0343f\<close>.\<close>

definition ENCODER_GAP_RATIO :: rat where "ENCODER_GAP_RATIO = 5033165 / 8388608"
definition HOME_SAMPLE_EVENTS :: nat where "HOME_SAMPLE_EVENTS = 10"

definition US_WINDOW_MS :: "32 word" where "US_WINDOW_MS = 4000"
definition US_PING_PERIOD_MS :: nat where "US_PING_PERIOD_MS = 25"
definition US_BLOCK_SIZE :: nat where "US_BLOCK_SIZE = 7"
definition US_TRIM_FRACTION :: rat where "US_TRIM_FRACTION = 13421773 / 67108864"
definition US_CM_PER_US :: rat where "US_CM_PER_US = 1150917 / 33554432"

definition INVENTORY_THRESH_CM :: rat where "INVENTORY_THRESH_CM = 12"

definition PRINT_INV_LOG_LINE :: bool where "PRINT_INV_LOG_LINE = True"
definition CMD_BUF_LEN :: nat where "CMD_BUF_LEN = 48"

text \<open>A cast from \<^verbatim>\<open>float\<close> to \<^verbatim>\<open>long\<close> or \<^verbatim>\<open>int\<close> drops the fraction.\<close>

definition to_long :: "rat \<Rightarrow> int" where
  "to_long x = (if 0 \<le> x then \<lfloor>x\<rfloor> else \<lceil>x\<rceil>)"

subsection \<open>State\<close>

record st =
  estop :: bool
  homed :: bool
  currentBin :: int
  encoderGapThresholdSteps :: int
  beamStableBlocked :: bool
  beamLastRawBlocked :: bool
  beamLastChangeMs :: "32 word"
  gateLockout :: bool
  gateOpenedAtMs :: "32 word"
  inventoryPending :: bool
  lastSelectedBin :: int
  inventoryRequested :: bool
  binRequested :: bool
  requestedBin :: int
  cmdBuf :: string
  \<comment> \<open>outputs\<close>
  driverOn :: bool
  pulses :: nat
  tx :: "string list"
  \<comment> \<open>history: calls of \<^verbatim>\<open>moveOneBin\<close> so far; no definition reads it\<close>
  moveOneBinCalls :: nat
  \<comment> \<open>inputs: the receive buffer, and one oracle with its read position per source\<close>
  rx :: string
  serialIn :: "nat \<Rightarrow> string"
  serialPos :: nat
  indexIn :: "nat \<Rightarrow> bool"
  indexPos :: nat
  beamIn :: "nat \<Rightarrow> bool"
  beamPos :: nat
  clockIn :: "nat \<Rightarrow> 32 word"
  clockPos :: nat
  echoIn :: "nat \<Rightarrow> nat"
  echoPos :: nat

subsection \<open>Pins, clock and serial line\<close>

definition enableDriver :: "bool \<Rightarrow> st \<Rightarrow> st" where
  "enableDriver on s = s\<lparr>driverOn := on\<rparr>"

definition indexPressedRaw :: "st \<Rightarrow> bool \<times> st" where
  "indexPressedRaw s = (indexIn s (indexPos s), s\<lparr>indexPos := indexPos s + 1\<rparr>)"

definition beamBlockedRaw :: "st \<Rightarrow> bool \<times> st" where
  "beamBlockedRaw s = (beamIn s (beamPos s), s\<lparr>beamPos := beamPos s + 1\<rparr>)"

definition millis :: "st \<Rightarrow> 32 word \<times> st" where
  "millis s = (clockIn s (clockPos s), s\<lparr>clockPos := clockPos s + 1\<rparr>)"

text \<open>\<^verbatim>\<open>pulseIn\<close>: the echo's width in microseconds, 0 on timeout.\<close>

definition pulseIn :: "st \<Rightarrow> nat \<times> st" where
  "pulseIn s = (echoIn s (echoPos s), s\<lparr>echoPos := echoPos s + 1\<rparr>)"

text \<open>
  A loop on \<^verbatim>\<open>Serial.available()\<close> sees the bytes buffered so far and those that
  arrive while it runs; \<open>serialArrive\<close> adds the latter to the buffer when the loop
  starts.
\<close>

definition serialArrive :: "st \<Rightarrow> st" where
  "serialArrive s = s\<lparr>rx := rx s @ serialIn s (serialPos s), serialPos := serialPos s + 1\<rparr>"

fun sawEstopByte :: "string \<Rightarrow> bool \<Rightarrow> bool" where
  "sawEstopByte [] e = e"
| "sawEstopByte (c # cs) e = sawEstopByte cs (if c = CHR ''e'' \<or> c = CHR ''E'' then True else e)"

definition pollEstopDuringMotion :: "st \<Rightarrow> st" where
  "pollEstopDuringMotion s =
     (let s1 = serialArrive s in s1\<lparr>estop := sawEstopByte (rx s1) (estop s1), rx := []\<rparr>)"

definition stepPulseChecked :: "nat \<Rightarrow> st \<Rightarrow> bool \<times> st" where
  "stepPulseChecked delayUs s =
     (let s1 = pollEstopDuringMotion s in
      if estop s1 then (False, s1)
      else (let s2 = pollEstopDuringMotion (s1\<lparr>pulses := pulses s1 + 1\<rparr>)
            in (\<not> estop s2, s2)))"

subsection \<open>Index confirmation\<close>

primrec confirmPressed_polls :: "nat \<Rightarrow> int \<Rightarrow> st \<Rightarrow> int \<times> st" where
  "confirmPressed_polls 0 ok s = (ok, s)"
| "confirmPressed_polls (Suc n) ok s =
     (case indexPressedRaw s of
        (p, s1) \<Rightarrow> confirmPressed_polls n (if p then ok + 1 else 0) s1)"

definition confirmPressed :: "st \<Rightarrow> bool \<times> st" where
  "confirmPressed s =
     (case confirmPressed_polls PRESS_CONFIRM_POLLS 0 s of
        (ok, s1) \<Rightarrow> (int PRESS_CONFIRM_POLLS \<le> ok, s1))"

primrec confirmReleased_polls :: "nat \<Rightarrow> int \<Rightarrow> st \<Rightarrow> int \<times> st" where
  "confirmReleased_polls 0 ok s = (ok, s)"
| "confirmReleased_polls (Suc n) ok s =
     (case indexPressedRaw s of
        (p, s1) \<Rightarrow> confirmReleased_polls n (if \<not> p then ok + 1 else 0) s1)"

definition confirmReleased :: "st \<Rightarrow> bool \<times> st" where
  "confirmReleased s =
     (case confirmReleased_polls RELEASE_CONFIRM_POLLS 0 s of
        (ok, s1) \<Rightarrow> (int RELEASE_CONFIRM_POLLS \<le> ok, s1))"

subsection \<open>Motion primitive and seek\<close>

primrec stepCCW_loop :: "nat \<Rightarrow> nat \<Rightarrow> st \<Rightarrow> bool \<times> st" where
  "stepCCW_loop 0 delayUs s = (True, enableDriver False s)"
| "stepCCW_loop (Suc n) delayUs s =
     (case stepPulseChecked delayUs s of
        (False, s1) \<Rightarrow> (False, enableDriver False s1)
      | (True, s1) \<Rightarrow> stepCCW_loop n delayUs s1)"

definition stepCCW :: "int \<Rightarrow> nat \<Rightarrow> st \<Rightarrow> bool \<times> st" where
  "stepCCW n delayUs s = stepCCW_loop (nat n) delayUs (enableDriver True s)"

text \<open>
  The two loops of \<^verbatim>\<open>seekNextPressEventCCW\<close> that step until the switch is
  confirmed released; they differ in the pulse delay only. The result carries
  \<^verbatim>\<open>stepsMoved\<close>.
\<close>

function seek_release :: "nat \<Rightarrow> int \<Rightarrow> int \<Rightarrow> st \<Rightarrow> bool \<times> int \<times> st" where
  "seek_release delayUs guard stepsMoved s =
     (case confirmReleased s of
        (True, s1) \<Rightarrow> (True, stepsMoved, s1)
      | (False, s1) \<Rightarrow>
          (case stepPulseChecked delayUs s1 of
             (False, s2) \<Rightarrow> (False, stepsMoved, enableDriver False s2)
           | (True, s2) \<Rightarrow>
               if guard + 1 > MAX_STEPS_TO_FIND_INDEX
               then (False, stepsMoved + 1, enableDriver False s2)
               else seek_release delayUs (guard + 1) (stepsMoved + 1) s2))"
  by pat_completeness auto
termination
  by (relation "measure (\<lambda>(d, g, m, s). nat (MAX_STEPS_TO_FIND_INDEX + 1 - g))") auto

declare seek_release.simps [simp del]

primrec seek_escape :: "nat \<Rightarrow> int \<Rightarrow> st \<Rightarrow> bool \<times> int \<times> st" where
  "seek_escape 0 stepsMoved s = (True, stepsMoved, s)"
| "seek_escape (Suc n) stepsMoved s =
     (case stepPulseChecked APPROACH_DELAY_US s of
        (False, s1) \<Rightarrow> (False, stepsMoved, enableDriver False s1)
      | (True, s1) \<Rightarrow> seek_escape n (stepsMoved + 1) s1)"

function seek_press :: "int \<Rightarrow> int \<Rightarrow> int \<Rightarrow> st \<Rightarrow> bool \<times> int \<times> st" where
  "seek_press guard approachCountdown stepsMoved s =
     (case indexPressedRaw s of
        (p, s1) \<Rightarrow>
          let countdown = (if p then APPROACH_WINDOW_STEPS else approachCountdown);
              useDelay = (if countdown > 0 then APPROACH_DELAY_US else SEEK_DELAY_US)
          in (case stepPulseChecked useDelay s1 of
               (False, s2) \<Rightarrow> (False, stepsMoved, enableDriver False s2)
             | (True, s2) \<Rightarrow>
                 if guard + 1 > MAX_STEPS_TO_FIND_INDEX
                 then (False, stepsMoved + 1, enableDriver False s2)
                 else
                   (case confirmPressed s2 of
                      (True, s3) \<Rightarrow>
                        (case seek_escape POST_HIT_ESCAPE_STEPS (stepsMoved + 1) s3 of
                           (False, m, s4) \<Rightarrow> (False, m, s4)
                         | (True, m, s4) \<Rightarrow>
                             (case seek_release APPROACH_DELAY_US 0 m s4 of
                                (False, m', s5) \<Rightarrow> (False, m', s5)
                              | (True, m', s5) \<Rightarrow> (True, m', enableDriver False s5)))
                    | (False, s3) \<Rightarrow>
                        seek_press (guard + 1)
                          (if countdown > 0 then countdown - 1 else countdown)
                          (stepsMoved + 1) s3)))"
  by pat_completeness auto
termination
  by (relation "measure (\<lambda>(g, c, m, s). nat (MAX_STEPS_TO_FIND_INDEX + 1 - g))") auto

declare seek_press.simps [simp del]

definition seekNextPressEventCCW :: "st \<Rightarrow> bool \<times> int \<times> st" where
  "seekNextPressEventCCW s =
     (case seek_release SEEK_DELAY_US 0 0 (enableDriver True s) of
        (False, m, s1) \<Rightarrow> (False, m, s1)
      | (True, m, s1) \<Rightarrow> seek_press 0 0 m s1)"

text \<open>
  \<^verbatim>\<open>degToSteps\<close>: the two loops bring the angle into \<open>[0, 360)\<close>; in exact
  arithmetic that is the remainder of the angle modulo 360. The rounding of the float
  operations is not modelled. The firmware calls the function with 13 only, where the
  value truncated is 58.28 and no rounding reaches an integer.
\<close>

definition degToSteps :: "rat \<Rightarrow> int" where
  "degToSteps deg =
     (let d = deg - 360 * of_int \<lfloor>deg / 360\<rfloor>
      in to_long ((d / 360) * of_int STEPS_PER_REV + 1 / 2))"

definition applyIndexOffset :: "st \<Rightarrow> bool \<times> st" where
  "applyIndexOffset s =
     (let offsetSteps = degToSteps (INDEX_TO_STOP_DEG + TRIM_DEG)
      in if offsetSteps > 0 then stepCCW offsetSteps OFFSET_DELAY_US s else (True, s))"

subsection \<open>Ultrasonic distance\<close>

text \<open>
  The distance is the exact product; the source rounds it to the nearest
  \<^verbatim>\<open>float\<close>, a relative change below \<open>2^-23\<close>.
\<close>

definition pingDistanceCm :: "st \<Rightarrow> rat option \<times> st" where
  "pingDistanceCm s =
     (case pulseIn s of
        (duration, s1) \<Rightarrow>
          if duration = 0 then (None, s1)
          else (Some ((of_nat duration * US_CM_PER_US) / 2), s1))"

text \<open>
  The sampling loop of \<^verbatim>\<open>medianOfBlockCm\<close>: it ends only with a full block or with
  the E-stop, so it is a partial function; the list holds \<^verbatim>\<open>s[0..count)\<close>.
\<close>

partial_function (option) medianOfBlock_fill :: "rat list \<Rightarrow> st \<Rightarrow> (rat list option \<times> st) option" where
  "medianOfBlock_fill samples s =
     (if length samples < US_BLOCK_SIZE then
        (let s1 = pollEstopDuringMotion s in
         if estop s1 then Some (None, s1)
         else (case pingDistanceCm s1 of
                 (d, s2) \<Rightarrow>
                   medianOfBlock_fill (case d of None \<Rightarrow> samples | Some x \<Rightarrow> samples @ [x]) s2))
      else Some (Some samples, s))"

definition medianOfBlockCm :: "st \<Rightarrow> (rat option \<times> st) option" where
  "medianOfBlockCm s =
     (case medianOfBlock_fill [] s of
        None \<Rightarrow> None
      | Some (None, s1) \<Rightarrow> Some (None, s1)
      | Some (Some samples, s1) \<Rightarrow> Some (Some (sort samples ! (US_BLOCK_SIZE div 2)), s1))"

definition MAX_BLOCKS :: nat where
  "MAX_BLOCKS = unat (US_WINDOW_MS div (of_nat US_BLOCK_SIZE * of_nat US_PING_PERIOD_MS)) + 10"

text \<open>
  The window loop of \<^verbatim>\<open>readRobustDistance4sCm\<close>; the list holds
  \<^verbatim>\<open>meds[0..mCount)\<close>. The inner result \<open>None\<close> is the \<^verbatim>\<open>return NAN\<close> of the
  E-stop check.
\<close>

partial_function (option) robust_window :: "32 word \<Rightarrow> rat list \<Rightarrow> st \<Rightarrow> (rat list option \<times> st) option" where
  "robust_window t0 meds s =
     (case millis s of
        (now, s1) \<Rightarrow>
          if now - t0 < US_WINDOW_MS then
            (let s2 = pollEstopDuringMotion s1 in
             if estop s2 then Some (None, s2)
             else (case medianOfBlockCm s2 of
                     None \<Rightarrow> None
                   | Some (m, s3) \<Rightarrow>
                       (let meds' = (case m of None \<Rightarrow> meds | Some x \<Rightarrow> meds @ [x])
                        in if MAX_BLOCKS \<le> length meds' then Some (Some meds', s3)
                           else robust_window t0 meds' s3)))
          else Some (Some meds, s1))"

text \<open>The summing loop \<^verbatim>\<open>for (i = trim; i < mCount - trim; i++)\<close>; \<open>acc\<close> is its
  \<^verbatim>\<open>sum\<close>.\<close>

function trim_sum :: "rat list \<Rightarrow> int \<Rightarrow> int \<Rightarrow> rat \<Rightarrow> int \<Rightarrow> rat \<times> int" where
  "trim_sum meds i hi acc used =
     (if i < hi then trim_sum meds (i + 1) hi (acc + meds ! nat i) (used + 1)
      else (acc, used))"
  by pat_completeness auto
termination
  by (relation "measure (\<lambda>(meds, i, hi, acc, used). nat (hi - i))") auto

declare trim_sum.simps [simp del]

text \<open>What \<^verbatim>\<open>readRobustDistance4sCm\<close> computes from the medians after the window. The
  sum and the quotient are exact here; the source rounds them to \<^verbatim>\<open>double\<close> and
  the result to \<^verbatim>\<open>float\<close>.\<close>

definition robust_of_medians :: "rat list \<Rightarrow> rat option" where
  "robust_of_medians meds =
     (let mCount = int (length meds) in
      if mCount < 5 then None
      else
        (let sorted = sort meds;
             trim0 = to_long (of_int mCount * US_TRIM_FRACTION + 1 / 2);
             trim = (if trim0 * 2 \<ge> mCount then (mCount - 1) sdiv 2 else trim0)
         in (case trim_sum sorted trim (mCount - trim) 0 0 of
               (acc, used) \<Rightarrow> if used \<le> 0 then None else Some (acc / of_int used))))"

definition readRobustDistance4sCm :: "st \<Rightarrow> (rat option \<times> st) option" where
  "readRobustDistance4sCm s =
     (case millis s of
        (t0, s1) \<Rightarrow>
          (case robust_window t0 [] s1 of
             None \<Rightarrow> None
           | Some (None, s2) \<Rightarrow> Some (None, s2)
           | Some (Some meds, s2) \<Rightarrow> Some (robust_of_medians meds, s2)))"

subsection \<open>Homing\<close>

primrec home_sample :: "nat \<Rightarrow> int list \<Rightarrow> st \<Rightarrow> bool \<times> int list \<times> st" where
  "home_sample 0 gaps s = (True, gaps, s)"
| "home_sample (Suc n) gaps s =
     (case seekNextPressEventCCW s of
        (False, g, s1) \<Rightarrow> (False, gaps, s1)
      | (True, g, s1) \<Rightarrow> home_sample n (gaps @ [g]) s1)"

text \<open>The scanning loop \<^verbatim>\<open>while (true)\<close> of \<^verbatim>\<open>homeRoutine\<close>.\<close>

partial_function (option) home_scan :: "st \<Rightarrow> (bool \<times> st) option" where
  "home_scan s =
     (case seekNextPressEventCCW s of
        (ok, g, s1) \<Rightarrow>
          if \<not> ok then Some (False, s1)
          else if g < encoderGapThresholdSteps s1 then
            (case applyIndexOffset s1 of
               (ok', s2) \<Rightarrow>
                 if \<not> ok' then Some (False, s2)
                 else Some (True, s2\<lparr>currentBin := 0, homed := True, lastSelectedBin := 0\<rparr>))
          else home_scan s1)"

definition home_reset :: "st \<Rightarrow> st" where
  "home_reset s =
     s\<lparr>estop := False, homed := False, currentBin := - 1, encoderGapThresholdSteps := 0,
       inventoryRequested := False, binRequested := False, requestedBin := - 1\<rparr>"

definition home_threshold :: "int list \<Rightarrow> int" where
  "home_threshold gaps =
     (let normalGap = sort gaps ! (HOME_SAMPLE_EVENTS div 2)
      in to_long (of_int normalGap * ENCODER_GAP_RATIO + 1 / 2))"

definition homeRoutine :: "st \<Rightarrow> (bool \<times> st) option" where
  "homeRoutine s =
     (case seekNextPressEventCCW (home_reset s) of
        (False, moved, s1) \<Rightarrow> Some (False, s1)
      | (True, moved, s1) \<Rightarrow>
          (case home_sample HOME_SAMPLE_EVENTS [] s1 of
             (False, gaps, s2) \<Rightarrow> Some (False, s2)
           | (True, gaps, s2) \<Rightarrow>
               home_scan (s2\<lparr>encoderGapThresholdSteps := home_threshold gaps\<rparr>)))"

subsection \<open>Bin navigator\<close>

definition moveOneBin :: "st \<Rightarrow> bool \<times> st" where
  "moveOneBin s0 =
     (let s = s0\<lparr>moveOneBinCalls := moveOneBinCalls s0 + 1\<rparr> in
      if \<not> homed s then (False, s)
      else if currentBin s = 3 then
        (case seekNextPressEventCCW s of
           (False, tmp, s1) \<Rightarrow> (False, s1)
         | (True, tmp, s1) \<Rightarrow>
             (case seekNextPressEventCCW s1 of
                (False, tmp, s2) \<Rightarrow> (False, s2)
              | (True, tmp, s2) \<Rightarrow>
                  (case applyIndexOffset s2 of
                     (False, s3) \<Rightarrow> (False, s3)
                   | (True, s3) \<Rightarrow> (True, s3\<lparr>currentBin := 0\<rparr>))))
      else
        (case seekNextPressEventCCW s of
           (False, tmp, s1) \<Rightarrow> (False, s1)
         | (True, tmp, s1) \<Rightarrow>
             (case applyIndexOffset s1 of
                (False, s2) \<Rightarrow> (False, s2)
              | (True, s2) \<Rightarrow> (True, s2\<lparr>currentBin := currentBin s2 + 1\<rparr>))))"

primrec moveBins_loop :: "nat \<Rightarrow> st \<Rightarrow> bool \<times> st" where
  "moveBins_loop 0 s = (True, s)"
| "moveBins_loop (Suc n) s =
     (case moveOneBin s of
        (False, s1) \<Rightarrow> (False, s1)
      | (True, s1) \<Rightarrow> moveBins_loop n s1)"

definition moveBins :: "int \<Rightarrow> st \<Rightarrow> bool \<times> st" where
  "moveBins n s = moveBins_loop (nat n) s"

text \<open>\<^verbatim>\<open>%\<close> is C's remainder, which truncates: \<open>smod\<close>.\<close>

definition moveToBin :: "int \<Rightarrow> st \<Rightarrow> bool \<times> st" where
  "moveToBin targetBin s =
     (if \<not> homed s then (False, s)
      else if targetBin < 0 \<or> targetBin > 3 then (False, s)
      else
        (let steps = (targetBin - currentBin s + 4) smod 4
         in if steps = 0 then (True, s)
            else (case moveBins steps s of
                    (False, s1) \<Rightarrow> (False, s1)
                  | (True, s1) \<Rightarrow> (True, s1))))"

subsection \<open>Inventory sequence and command queue\<close>

text \<open>\<^verbatim>\<open>Serial.print\<close> of an integer writes its decimal digits.\<close>

function print_nat :: "nat \<Rightarrow> string" where
  "print_nat n =
     (if n < 10 then [''0123456789'' ! n]
      else print_nat (n div 10) @ [''0123456789'' ! (n mod 10)])"
  by pat_completeness auto
termination
  by (relation "measure (\<lambda>n. n)") auto

declare print_nat.simps [simp del]

definition print_int :: "int \<Rightarrow> string" where
  "print_int i = (if i < 0 then ''-'' @ print_nat (nat (- i)) else print_nat (nat i))"

definition println :: "string \<Rightarrow> st \<Rightarrow> st" where
  "println l s = s\<lparr>tx := tx s @ [l]\<rparr>"

definition printInventoryLogLine :: "int \<Rightarrow> bool \<Rightarrow> st \<Rightarrow> st" where
  "printInventoryLogLine bin isHI s =
     (if \<not> PRINT_INV_LOG_LINE then s
      else if bin < 0 \<or> bin > 3 then s
      else (case millis s of
              (now, s1) \<Rightarrow>
                println (''bin'' @ print_int bin @ '','' @ (if isHI then ''HI'' else ''LO'')
                           @ '','' @ print_nat (unat now)) s1))"

text \<open>
  \<^verbatim>\<open>runInventorySequence\<close> ends with a drain of the queue, and the drain runs a
  queued inventory: the two functions call each other. The recursion is bounded, since
  the sequence clears \<^verbatim>\<open>inventoryPending\<close> before it drains and the drain starts a
  sequence only while \<^verbatim>\<open>inventoryPending\<close> is set. A result \<open>None\<close> is a
  measurement that never returns.
\<close>

function runInventorySequence :: "st \<Rightarrow> (bool \<times> st) option"
  and tryRunQueuedCommands :: "st \<Rightarrow> st option" where
  "runInventorySequence s =
     (if \<not> homed s then Some (False, s)
      else if beamStableBlocked s then Some (False, s)
      else if \<not> inventoryPending s then Some (False, s)
      else if lastSelectedBin s < 0 \<or> lastSelectedBin s > 3 then Some (False, s)
      else
        (case moveBins 2 s of
           (False, s1) \<Rightarrow> Some (False, s1)
         | (True, s1) \<Rightarrow>
             (case readRobustDistance4sCm s1 of
                None \<Rightarrow> None
              | Some (d, s2) \<Rightarrow>
                  if estop s2 then Some (False, s2)
                  else
                    (let isHI = (case d of None \<Rightarrow> False | Some x \<Rightarrow> x < INVENTORY_THRESH_CM);
                         s3 = println (if isHI then ''HI'' else ''LO'') s2;
                         s4 = printInventoryLogLine (lastSelectedBin s3) isHI s3
                     in (case tryRunQueuedCommands (s4\<lparr>inventoryPending := False\<rparr>) of
                           None \<Rightarrow> None
                         | Some s5 \<Rightarrow> Some (True, s5))))))"
| "tryRunQueuedCommands s =
     (if estop s then Some s
      else if inventoryRequested s \<and> inventoryPending s \<and> \<not> gateLockout s
              \<and> \<not> beamStableBlocked s then
        (case runInventorySequence (s\<lparr>inventoryRequested := False\<rparr>) of
           None \<Rightarrow> None
         | Some (ok, s1) \<Rightarrow> Some s1)
      else if binRequested s \<and> \<not> gateLockout s \<and> \<not> inventoryPending s then
        (let b = requestedBin s
         in (case moveToBin b (s\<lparr>binRequested := False, requestedBin := - 1\<rparr>) of
               (False, s1) \<Rightarrow> Some s1
             | (True, s1) \<Rightarrow> Some (s1\<lparr>lastSelectedBin := b\<rparr>)))
      else Some s)"
  by pat_completeness auto
termination
  by (relation "measure (\<lambda>x. case x of
          Inl s \<Rightarrow> (if inventoryPending s then 2 else 0)
        | Inr s \<Rightarrow> (if inventoryPending s then 3 else 1))") auto

declare runInventorySequence.simps [simp del] tryRunQueuedCommands.simps [simp del]

subsection \<open>Break-beam gate\<close>

text \<open>
  \<^verbatim>\<open>updateBeamDebounce\<close> in its three steps: the debounce of the raw beam with the
  transitions it causes, the timed release of the lockout, and the drain that follows a
  release.
\<close>

definition beam_debounce :: "bool \<Rightarrow> 32 word \<Rightarrow> st \<Rightarrow> st" where
  "beam_debounce raw now s =
     (let s1 = (if raw \<noteq> beamLastRawBlocked s
                then s\<lparr>beamLastRawBlocked := raw, beamLastChangeMs := now\<rparr> else s)
      in if now - beamLastChangeMs s1 \<ge> BEAM_DEBOUNCE_MS then
           (let prev = beamStableBlocked s1;
                s2 = s1\<lparr>beamStableBlocked := raw\<rparr>
            in if beamStableBlocked s2 \<noteq> prev then
                 (if beamStableBlocked s2 then s2\<lparr>gateLockout := True, gateOpenedAtMs := 0\<rparr>
                  else s2\<lparr>gateOpenedAtMs := now\<rparr>)
               else s2)
         else s1)"

definition gate_rearm :: "st \<Rightarrow> bool \<times> st" where
  "gate_rearm s =
     (if gateLockout s \<and> \<not> beamStableBlocked s \<and> gateOpenedAtMs s \<noteq> 0 then
        (case millis s of
           (now, s1) \<Rightarrow>
             if now - gateOpenedAtMs s1 \<ge> BEAM_ARM_DELAY_MS
             then (True, s1\<lparr>gateLockout := False, gateOpenedAtMs := 0, inventoryPending := True\<rparr>)
             else (False, s1))
      else (False, s))"

definition updateBeamDebounce :: "st \<Rightarrow> st option" where
  "updateBeamDebounce s =
     (case beamBlockedRaw s of
        (raw, s1) \<Rightarrow>
          (case millis s1 of
             (now, s2) \<Rightarrow>
               (case gate_rearm (beam_debounce raw now s2) of
                  (True, s3) \<Rightarrow> tryRunQueuedCommands s3
                | (False, s3) \<Rightarrow> Some s3)))"

subsection \<open>Command line and main loop\<close>

definition resetCmdBuf :: "st \<Rightarrow> st" where
  "resetCmdBuf s = s\<lparr>cmdBuf := []\<rparr>"

definition is_eol :: "char \<Rightarrow> bool" where
  "is_eol c = (c = CHR 0x0A \<or> c = CHR 0x0D)"

text \<open>
  The loop of \<^verbatim>\<open>readCommandLine\<close> over the received bytes; \<open>buf\<close> is
  \<^verbatim>\<open>cmdBuf[0..cmdLen)\<close>. The result holds the bytes left in the receive buffer.
\<close>

fun readCommandLine_bytes :: "string \<Rightarrow> string \<Rightarrow> bool \<times> string \<times> string" where
  "readCommandLine_bytes [] buf = (False, [], buf)"
| "readCommandLine_bytes (c # cs) buf =
     (if c = CHR 0x0D then readCommandLine_bytes cs buf
      else if c = CHR 0x0A then (True, dropWhile is_eol cs, buf)
      else if c = CHR 0x08 \<or> c = CHR 0x7F then readCommandLine_bytes cs (butlast buf)
      else readCommandLine_bytes cs (if length buf < CMD_BUF_LEN - 1 then buf @ [c] else buf))"

definition readCommandLine :: "st \<Rightarrow> bool \<times> st" where
  "readCommandLine s =
     (let s1 = serialArrive s
      in (case readCommandLine_bytes (rx s1) (cmdBuf s1) of
            (got, rest, buf) \<Rightarrow> (got, s1\<lparr>rx := rest, cmdBuf := buf\<rparr>)))"

text \<open>The buffer as a C string ends at its first NUL.\<close>

definition c_str :: "string \<Rightarrow> string" where
  "c_str buf = takeWhile (\<lambda>c. c \<noteq> CHR 0x00) buf"

definition is_blank :: "char \<Rightarrow> bool" where
  "is_blank c = (c = CHR '' '' \<or> c = CHR 0x09)"

definition trimInPlace :: "string \<Rightarrow> string" where
  "trimInPlace str = rev (dropWhile is_blank (rev (dropWhile is_blank str)))"

definition to_lower :: "char \<Rightarrow> char" where
  "to_lower c =
     (if (65::nat) \<le> of_char c \<and> (of_char c :: nat) \<le> 90
      then char_of ((of_char c :: nat) + 32) else c)"

fun equalsIgnoreCase :: "string \<Rightarrow> string \<Rightarrow> bool" where
  "equalsIgnoreCase [] [] = True"
| "equalsIgnoreCase (a # as) (b # bs) = (to_lower a = to_lower b \<and> equalsIgnoreCase as bs)"
| "equalsIgnoreCase _ _ = False"

text \<open>
  \<^verbatim>\<open>parseBinCommand\<close> reads five bytes from the start of the command. On a command
  shorter than four characters it reads past the terminator; one of the first four
  bytes is then NUL and the test fails whatever lies behind it.
\<close>

definition parseBinCommand :: "string \<Rightarrow> int option" where
  "parseBinCommand str =
     (case str of
        [t0, t1, t2, t3] \<Rightarrow>
          if \<not> (to_lower t0 = CHR ''b'' \<and> to_lower t1 = CHR ''i'' \<and> to_lower t2 = CHR ''n'')
          then None
          else if (of_char t3 :: nat) < 48 \<or> (of_char t3 :: nat) > 51 then None
          else Some (int (of_char t3) - 48)
      | _ \<Rightarrow> None)"

definition doEstop :: "st \<Rightarrow> st" where
  "doEstop s = enableDriver False (s\<lparr>estop := True\<rparr>)"

text \<open>The part of \<^verbatim>\<open>loop\<close> that handles one complete, trimmed line.\<close>

definition loop_command :: "string \<Rightarrow> st \<Rightarrow> st option" where
  "loop_command cmd s =
     (if cmd = [] then Some (resetCmdBuf s)
      else if equalsIgnoreCase cmd ''e'' then Some (resetCmdBuf (doEstop s))
      else if equalsIgnoreCase cmd ''h'' then
        (case homeRoutine (resetCmdBuf s) of
           None \<Rightarrow> None
         | Some (ok, s1) \<Rightarrow> Some s1)
      else if equalsIgnoreCase cmd ''i'' then
        (let s1 = s\<lparr>inventoryRequested := True\<rparr>
         in if \<not> inventoryPending s1 then Some (resetCmdBuf s1)
            else if beamStableBlocked s1 then Some (resetCmdBuf s1)
            else if gateLockout s1 then Some (resetCmdBuf s1)
            else (case runInventorySequence (s1\<lparr>inventoryRequested := False\<rparr>) of
                    None \<Rightarrow> None
                  | Some (ok, s2) \<Rightarrow> Some (resetCmdBuf s2)))
      else
        (case parseBinCommand cmd of
           Some targetBin \<Rightarrow>
             if gateLockout s then
               Some (resetCmdBuf (s\<lparr>binRequested := True, requestedBin := targetBin\<rparr>))
             else if inventoryPending s then
               Some (resetCmdBuf (s\<lparr>binRequested := True, requestedBin := targetBin\<rparr>))
             else
               (case moveToBin targetBin s of
                  (False, s1) \<Rightarrow> Some (resetCmdBuf s1)
                | (True, s1) \<Rightarrow>
                    (case updateBeamDebounce (s1\<lparr>lastSelectedBin := targetBin\<rparr>) of
                       None \<Rightarrow> None
                     | Some s2 \<Rightarrow>
                         Some (resetCmdBuf
                           (if beamStableBlocked s2
                            then s2\<lparr>gateLockout := True, gateOpenedAtMs := 0\<rparr> else s2))))
         | None \<Rightarrow> Some (resetCmdBuf s)))"

definition loop :: "st \<Rightarrow> st option" where
  "loop s =
     (if estop s then Some s
      else
        (case updateBeamDebounce s of
           None \<Rightarrow> None
         | Some s1 \<Rightarrow>
             (case tryRunQueuedCommands s1 of
                None \<Rightarrow> None
              | Some s2 \<Rightarrow>
                  (case readCommandLine s2 of
                     (True, s3) \<Rightarrow> loop_command (trimInPlace (c_str (cmdBuf s3))) s3
                   | (False, s3) \<Rightarrow> Some (pollEstopDuringMotion s3)))))"

section \<open>Frame of the input and output operations\<close>

text \<open>
  What reading a pin, polling the serial line and pulsing the motor leave alone: every
  variable of the firmware except the E-stop latch, the printed lines and the oracles.
  They set the latch but never clear it, and the pulse count only grows.
\<close>

definition io_frame :: "st \<Rightarrow> st \<Rightarrow> bool" where
  "io_frame s s' =
     (homed s' = homed s \<and> currentBin s' = currentBin s
      \<and> encoderGapThresholdSteps s' = encoderGapThresholdSteps s
      \<and> beamStableBlocked s' = beamStableBlocked s
      \<and> beamLastRawBlocked s' = beamLastRawBlocked s
      \<and> beamLastChangeMs s' = beamLastChangeMs s
      \<and> gateLockout s' = gateLockout s \<and> gateOpenedAtMs s' = gateOpenedAtMs s
      \<and> inventoryPending s' = inventoryPending s \<and> lastSelectedBin s' = lastSelectedBin s
      \<and> inventoryRequested s' = inventoryRequested s \<and> binRequested s' = binRequested s
      \<and> requestedBin s' = requestedBin s \<and> cmdBuf s' = cmdBuf s \<and> tx s' = tx s
      \<and> moveOneBinCalls s' = moveOneBinCalls s
      \<and> serialIn s' = serialIn s \<and> indexIn s' = indexIn s \<and> beamIn s' = beamIn s
      \<and> clockIn s' = clockIn s \<and> echoIn s' = echoIn s
      \<and> pulses s \<le> pulses s'
      \<and> (estop s \<longrightarrow> estop s'))"

lemma io_frame_refl [simp]: "io_frame s s"
  by (simp add: io_frame_def)

lemma io_frame_trans: "io_frame s s1 \<Longrightarrow> io_frame s1 s2 \<Longrightarrow> io_frame s s2"
  by (simp add: io_frame_def)

lemma sawEstopByte_mono: "e \<Longrightarrow> sawEstopByte cs e"
  by (induction cs arbitrary: e) auto

lemma pollEstop_frame: "io_frame s (pollEstopDuringMotion s)"
  by (simp add: io_frame_def pollEstopDuringMotion_def serialArrive_def Let_def sawEstopByte_mono)

lemma stepPulseChecked_frame: "stepPulseChecked d s = (ok, s') \<Longrightarrow> io_frame s s'"
  by (auto simp: stepPulseChecked_def Let_def io_frame_def pollEstopDuringMotion_def serialArrive_def sawEstopByte_mono split: if_splits)

lemma stepPulseChecked_estop: "stepPulseChecked d s = (ok, s') \<Longrightarrow> ok = (\<not> estop s')"
  by (auto simp: stepPulseChecked_def Let_def split: if_splits)

lemma indexPressedRaw_frame: "indexPressedRaw s = (p, s') \<Longrightarrow> io_frame s s'"
  by (auto simp: indexPressedRaw_def io_frame_def)

lemma enableDriver_frame: "io_frame s (enableDriver on s)"
  by (simp add: enableDriver_def io_frame_def)

lemma confirmPressed_polls_frame: "confirmPressed_polls n ok s = (ok', s') \<Longrightarrow> io_frame s s'"
proof (induction n arbitrary: ok s)
  case 0 then show ?case by simp
next
  case (Suc n)
  obtain p s1 where r: "indexPressedRaw s = (p, s1)" by (cases "indexPressedRaw s")
  with Suc.prems have "confirmPressed_polls n (if p then ok + 1 else 0) s1 = (ok', s')" by simp
  from Suc.IH[OF this] indexPressedRaw_frame[OF r] show ?case by (rule io_frame_trans[rotated])
qed

lemma confirmReleased_polls_frame: "confirmReleased_polls n ok s = (ok', s') \<Longrightarrow> io_frame s s'"
proof (induction n arbitrary: ok s)
  case 0 then show ?case by simp
next
  case (Suc n)
  obtain p s1 where r: "indexPressedRaw s = (p, s1)" by (cases "indexPressedRaw s")
  with Suc.prems have "confirmReleased_polls n (if \<not> p then ok + 1 else 0) s1 = (ok', s')" by simp
  from Suc.IH[OF this] indexPressedRaw_frame[OF r] show ?case by (rule io_frame_trans[rotated])
qed

lemma confirmPressed_frame: "confirmPressed s = (p, s') \<Longrightarrow> io_frame s s'"
  by (auto simp: confirmPressed_def split: prod.splits dest: confirmPressed_polls_frame)

lemma confirmReleased_frame: "confirmReleased s = (p, s') \<Longrightarrow> io_frame s s'"
  by (auto simp: confirmReleased_def split: prod.splits dest: confirmReleased_polls_frame)

lemma stepCCW_loop_frame: "stepCCW_loop n d s = (ok, s') \<Longrightarrow> io_frame s s'"
proof (induction n arbitrary: s)
  case 0 then show ?case by (auto intro: enableDriver_frame)
next
  case (Suc n)
  obtain b s1 where r: "stepPulseChecked d s = (b, s1)" by (cases "stepPulseChecked d s")
  show ?case
  proof (cases b)
    case True
    with Suc.prems r have "stepCCW_loop n d s1 = (ok, s')" by simp
    from Suc.IH[OF this] stepPulseChecked_frame[OF r] show ?thesis by (rule io_frame_trans[rotated])
  next
    case False
    with Suc.prems r have "s' = enableDriver False s1" by simp
    with stepPulseChecked_frame[OF r] show ?thesis
      using enableDriver_frame io_frame_trans by blast
  qed
qed

lemma stepCCW_frame: "stepCCW n d s = (ok, s') \<Longrightarrow> io_frame s s'"
  unfolding stepCCW_def
  using enableDriver_frame io_frame_trans stepCCW_loop_frame by blast

lemma stepCCW_loop_estop: "stepCCW_loop n d s = (ok, s') \<Longrightarrow> \<not> ok \<Longrightarrow> estop s'"
proof (induction n arbitrary: s)
  case 0 then show ?case by simp
next
  case (Suc n)
  obtain b s1 where r: "stepPulseChecked d s = (b, s1)" by (cases "stepPulseChecked d s")
  show ?case
  proof (cases b)
    case True
    with Suc.prems r have "stepCCW_loop n d s1 = (ok, s')" by simp
    from Suc.IH[OF this Suc.prems(2)] show ?thesis .
  next
    case False
    with Suc.prems r stepPulseChecked_estop[OF r] show ?thesis by (auto simp: enableDriver_def)
  qed
qed

lemma seek_release_frame: "seek_release d g m s = (ok, m', s') \<Longrightarrow> io_frame s s'"
proof (induction d g m s rule: seek_release.induct)
  case (1 d g m s)
  obtain r s1 where c: "confirmReleased s = (r, s1)" by (cases "confirmReleased s")
  note f1 = confirmReleased_frame[OF c]
  show ?case
  proof (cases r)
    case True
    with "1.prems" c f1 show ?thesis by (simp add: seek_release.simps[of d g m s])
  next
    case False
    obtain b s2 where p: "stepPulseChecked d s1 = (b, s2)" by (cases "stepPulseChecked d s1")
    note f2 = io_frame_trans[OF f1 stepPulseChecked_frame[OF p]]
    show ?thesis
    proof (cases "b \<and> \<not> g + 1 > MAX_STEPS_TO_FIND_INDEX")
      case True
      with "1.prems" c p False have "seek_release d (g + 1) (m + 1) s2 = (ok, m', s')"
        by (simp add: seek_release.simps[of d g m s])
      from "1.IH"[OF c[symmetric] _ p[symmetric] _ _ this] False True
      have "io_frame s2 s'" by simp
      with f2 show ?thesis by (rule io_frame_trans)
    next
      case F: False
      with "1.prems" c p False have "s' = enableDriver False s2"
        by (auto simp: seek_release.simps[of d g m s] split: if_splits bool.splits)
      with f2 show ?thesis using enableDriver_frame io_frame_trans by blast
    qed
  qed
qed


lemma seek_escape_frame: "seek_escape n m s = (ok, m', s') \<Longrightarrow> io_frame s s'"
proof (induction n arbitrary: m s)
  case 0 then show ?case by simp
next
  case (Suc n)
  obtain b s1 where r: "stepPulseChecked APPROACH_DELAY_US s = (b, s1)"
    by (cases "stepPulseChecked APPROACH_DELAY_US s")
  show ?case
  proof (cases b)
    case True
    with Suc.prems r have "seek_escape n (m + 1) s1 = (ok, m', s')" by simp
    from Suc.IH[OF this] stepPulseChecked_frame[OF r] show ?thesis by (rule io_frame_trans[rotated])
  next
    case False
    with Suc.prems r have "s' = enableDriver False s1" by simp
    with stepPulseChecked_frame[OF r] show ?thesis
      using enableDriver_frame io_frame_trans by blast
  qed
qed

lemma seek_press_frame: "seek_press g c m s = (ok, m', s') \<Longrightarrow> io_frame s s'"
proof (induction g c m s arbitrary: ok m' s' rule: seek_press.induct)
  case (1 g c m s)
  note ih = "1.IH" and pr = "1.prems"[unfolded seek_press.simps[of g c m s]]
  obtain p s1 where i: "indexPressedRaw s = (p, s1)" by (cases "indexPressedRaw s")
  define cd where "cd = (if p then APPROACH_WINDOW_STEPS else c)"
  define dl where "dl = (if cd > 0 then APPROACH_DELAY_US else SEEK_DELAY_US)"
  obtain b s2 where q: "stepPulseChecked dl s1 = (b, s2)" by (cases "stepPulseChecked dl s1")
  obtain h s3 where k: "confirmPressed s2 = (h, s3)" by (cases "confirmPressed s2")
  note f2 = io_frame_trans[OF indexPressedRaw_frame[OF i] stepPulseChecked_frame[OF q]]
  note f3 = io_frame_trans[OF f2 confirmPressed_frame[OF k]]
  have fe: "io_frame s2 (enableDriver False s2)" by (rule enableDriver_frame)
  consider (stop) "\<not> b \<or> g + 1 > MAX_STEPS_TO_FIND_INDEX"
    | (again) "b" "\<not> g + 1 > MAX_STEPS_TO_FIND_INDEX" "\<not> h"
    | (hit) "b" "\<not> g + 1 > MAX_STEPS_TO_FIND_INDEX" "h" by blast
  then show ?case
  proof cases
    case stop
    with pr i q have "s' = enableDriver False s2"
      by (auto simp: Let_def cd_def dl_def split: if_splits bool.splits)
    with f2 fe show ?thesis using io_frame_trans by blast
  next
    case again
    with pr i q k
    have e: "seek_press (g + 1) (if cd > 0 then cd - 1 else cd) (m + 1) s3 = (ok, m', s')"
      by (simp add: Let_def cd_def dl_def del: if_split cong: if_cong)
    have "io_frame s3 s'"
      using ih[OF i[symmetric] cd_def dl_def q[symmetric] _ _ k[symmetric] _ e] again by simp
    with f3 show ?thesis by (rule io_frame_trans)
  next
    case hit
    obtain b4 m4 s4 where es: "seek_escape POST_HIT_ESCAPE_STEPS (m + 1) s3 = (b4, m4, s4)"
      by (cases "seek_escape POST_HIT_ESCAPE_STEPS (m + 1) s3")
    note f4 = io_frame_trans[OF f3 seek_escape_frame[OF es]]
    obtain b5 m5 s5 where rl: "seek_release APPROACH_DELAY_US 0 m4 s4 = (b5, m5, s5)"
      by (cases "seek_release APPROACH_DELAY_US 0 m4 s4")
    note f5 = io_frame_trans[OF f4 seek_release_frame[OF rl]]
    from pr i q k hit es rl have "s' = s4 \<or> s' = s5 \<or> s' = enableDriver False s5"
      by (auto simp: Let_def cd_def dl_def split: bool.splits)
    with f4 f5 show ?thesis using enableDriver_frame io_frame_trans by blast
  qed
qed

lemma seek_frame: "seekNextPressEventCCW s = (ok, m, s') \<Longrightarrow> io_frame s s'"
proof -
  assume a: "seekNextPressEventCCW s = (ok, m, s')"
  obtain b m1 s1 where r: "seek_release SEEK_DELAY_US 0 0 (enableDriver True s) = (b, m1, s1)"
    by (cases "seek_release SEEK_DELAY_US 0 0 (enableDriver True s)")
  note f1 = io_frame_trans[OF enableDriver_frame seek_release_frame[OF r]]
  show ?thesis
  proof (cases b)
    case False
    with a r have "s' = s1" by (simp add: seekNextPressEventCCW_def)
    with f1 show ?thesis by simp
  next
    case True
    with a r have "seek_press 0 0 m1 s1 = (ok, m, s')" by (simp add: seekNextPressEventCCW_def)
    from f1 seek_press_frame[OF this] show ?thesis by (rule io_frame_trans)
  qed
qed

lemma applyIndexOffset_frame: "applyIndexOffset s = (ok, s') \<Longrightarrow> io_frame s s'"
  by (auto simp: applyIndexOffset_def Let_def split: if_splits dest: stepCCW_frame)


section \<open>Bin navigator\<close>

lemma moveOneBin_not_homed: "\<not> homed s \<Longrightarrow> moveOneBin s = (False, s\<lparr>moveOneBinCalls := moveOneBinCalls s + 1\<rparr>)"
  by (simp add: moveOneBin_def Let_def)

lemma moveOneBin_effect:
  assumes "moveOneBin s = (ok, s')"
  shows "homed s' = homed s"
    and "moveOneBinCalls s' = moveOneBinCalls s + 1"
    and "lastSelectedBin s' = lastSelectedBin s"
    and "ok \<Longrightarrow> homed s \<and> currentBin s' = (if currentBin s = 3 then 0 else currentBin s + 1)"
    and "\<not> ok \<Longrightarrow> currentBin s' = currentBin s"
    and "estop s \<Longrightarrow> estop s'"
    and "pulses s \<le> pulses s'"
  using assms
  by (auto simp: moveOneBin_def Let_def io_frame_def
           split: if_splits prod.splits bool.splits
           dest!: seek_frame applyIndexOffset_frame)


lemma moveBins_loop_effect:
  assumes "moveBins_loop n s = (ok, s')" "homed s" "0 \<le> currentBin s" "currentBin s \<le> 3"
  shows "homed s' \<and> 0 \<le> currentBin s' \<and> currentBin s' \<le> 3
         \<and> lastSelectedBin s' = lastSelectedBin s
         \<and> (ok \<longrightarrow> currentBin s' = (currentBin s + int n) mod 4
                  \<and> moveOneBinCalls s' = moveOneBinCalls s + n)"
  using assms
proof (induction n arbitrary: s)
  case 0
  then show ?case by auto
next
  case (Suc n)
  obtain b s1 where m: "moveOneBin s = (b, s1)" by (cases "moveOneBin s")
  note e = moveOneBin_effect[OF m]
  show ?case
  proof (cases b)
    case False
    with Suc.prems m e show ?thesis by auto
  next
    case True
    with Suc.prems m have r: "moveBins_loop n s1 = (ok, s')" by simp
    from e True Suc.prems have h1: "homed s1" "0 \<le> currentBin s1" "currentBin s1 \<le> 3"
      by (auto split: if_splits)
    from e(4)[OF True] Suc.prems have c1: "currentBin s1 = (currentBin s + 1) mod 4"
      by (auto split: if_splits)
    from Suc.IH[OF r h1] e(2,3) c1 show ?thesis
      by (auto simp: mod_simps algebra_simps)
  qed
qed

lemma smod_nonneg: "0 \<le> (a::int) \<Longrightarrow> a smod 4 = a mod 4"
  by (simp add: signed_modulo_int_def sgn_if)

text \<open>
  The check of a run of calls: after every call that reports success the carousel is at
  the target and the call has invoked \<^verbatim>\<open>moveOneBin\<close> the forward distance times; a
  call for the bin the carousel is at, and a call for a bin outside \<open>0..3\<close>, leave the
  state as it was, the first reporting success and the second failure.
\<close>

fun moveToBin_calls_ok :: "int list \<Rightarrow> st \<Rightarrow> bool" where
  "moveToBin_calls_ok [] s = True"
| "moveToBin_calls_ok (t # ts) s =
     (case moveToBin t s of
        (ok, s') \<Rightarrow>
          (ok \<longrightarrow> 0 \<le> t \<and> t \<le> 3 \<and> currentBin s' = t
                 \<and> int (moveOneBinCalls s') - int (moveOneBinCalls s) = (t - currentBin s + 4) mod 4)
          \<and> (t = currentBin s \<longrightarrow> ok \<and> s' = s)
          \<and> (t < 0 \<or> t > 3 \<longrightarrow> \<not> ok \<and> s' = s)
          \<and> moveToBin_calls_ok ts s')"

lemma moveToBin_effect:
  assumes "moveToBin t s = (ok, s')" "homed s" "0 \<le> currentBin s" "currentBin s \<le> 3"
  shows "homed s'" "0 \<le> currentBin s'" "currentBin s' \<le> 3"
    and "ok \<Longrightarrow> 0 \<le> t \<and> t \<le> 3 \<and> currentBin s' = t
            \<and> int (moveOneBinCalls s') - int (moveOneBinCalls s) = (t - currentBin s + 4) mod 4"
    and "t = currentBin s \<Longrightarrow> ok \<and> s' = s"
    and "t < 0 \<or> t > 3 \<Longrightarrow> \<not> ok \<and> s' = s"
proof -
  let ?k = "(t - currentBin s + 4) mod 4"
  have range: "t < 0 \<or> t > 3 \<Longrightarrow> \<not> ok \<and> s' = s"
    using assms by (auto simp: moveToBin_def)
  show "t < 0 \<or> t > 3 \<Longrightarrow> \<not> ok \<and> s' = s" by (rule range)
  show "t = currentBin s \<Longrightarrow> ok \<and> s' = s"
    using assms by (auto simp: moveToBin_def Let_def smod_nonneg)
  consider (bad) "t < 0 \<or> t > 3" | (same) "0 \<le> t" "t \<le> 3" "?k = 0"
    | (go) "0 \<le> t" "t \<le> 3" "?k \<noteq> 0" by linarith
  then have "homed s' \<and> 0 \<le> currentBin s' \<and> currentBin s' \<le> 3
      \<and> (ok \<longrightarrow> 0 \<le> t \<and> t \<le> 3 \<and> currentBin s' = t
              \<and> int (moveOneBinCalls s') - int (moveOneBinCalls s) = ?k)"
  proof cases
    case bad
    with range assms show ?thesis by auto
  next
    case same
    with assms have "s' = s" "t = currentBin s"
      by (auto simp: moveToBin_def Let_def smod_nonneg) presburger+
    with assms same show ?thesis by auto
  next
    case go
    with assms have sm: "(t - currentBin s + 4) smod 4 = ?k" by (simp add: smod_nonneg)
    with go assms have r: "moveBins_loop (nat ?k) s = (ok, s')"
      by (auto simp: moveToBin_def Let_def moveBins_def split: prod.splits bool.splits)
    have k0: "0 \<le> ?k" by simp
    from moveBins_loop_effect[OF r assms(2-4)] go k0 assms(3,4)
    show ?thesis by (auto simp: mod_simps)
  qed
  then show "homed s'" "0 \<le> currentBin s'" "currentBin s' \<le> 3"
    and "ok \<Longrightarrow> 0 \<le> t \<and> t \<le> 3 \<and> currentBin s' = t
            \<and> int (moveOneBinCalls s') - int (moveOneBinCalls s) = ?k"
    by auto
qed

text \<open>
  Claim C2. In every run of \<^verbatim>\<open>moveToBin\<close> calls that starts homed at a bin in \<open>0..3\<close>,
  each call that reports success leaves \<^verbatim>\<open>currentBin\<close> at its target \<open>t\<close> and has
  invoked \<^verbatim>\<open>moveOneBin\<close> exactly \<open>(t - previous + 4) mod 4\<close> times; a call for the
  current bin reports success and changes nothing; a call for a bin outside \<open>0..3\<close>
  fails and changes nothing; and a call while not homed fails and changes nothing.
\<close>

theorem moveToBin_reaches_target:
  "(homed s \<and> 0 \<le> currentBin s \<and> currentBin s \<le> 3 \<longrightarrow> moveToBin_calls_ok ts s)
   \<and> (\<not> homed s \<longrightarrow> moveToBin t s = (False, s))"
proof
  show "homed s \<and> 0 \<le> currentBin s \<and> currentBin s \<le> 3 \<longrightarrow> moveToBin_calls_ok ts s"
  proof (induction ts arbitrary: s)
    case Nil
    show ?case by simp
  next
    case (Cons t ts)
    show ?case
    proof
      assume h: "homed s \<and> 0 \<le> currentBin s \<and> currentBin s \<le> 3"
      obtain ok s' where m: "moveToBin t s = (ok, s')" by (cases "moveToBin t s")
      note e = moveToBin_effect[OF m]
      from h e(1-3) Cons.IH[of s'] have "moveToBin_calls_ok ts s'" by simp
      with h m e(4-6) show "moveToBin_calls_ok (t # ts) s" by simp
    qed
  qed
  show "\<not> homed s \<longrightarrow> moveToBin t s = (False, s)"
    by (simp add: moveToBin_def)
qed


section \<open>Frames of the measurement and of homing\<close>

lemma millis_frame: "millis s = (t, s') \<Longrightarrow> io_frame s s'"
  by (auto simp: millis_def io_frame_def)

lemma pingDistanceCm_frame: "pingDistanceCm s = (d, s') \<Longrightarrow> io_frame s s'"
  by (auto simp: pingDistanceCm_def pulseIn_def io_frame_def split: if_splits)

lemma medianOfBlock_fill_frame_snd:
  assumes a: "medianOfBlock_fill xs s = Some y"
  shows "io_frame s (snd y)"
proof (rule medianOfBlock_fill.raw_induct[where P = "\<lambda>xs s y. io_frame s (snd y)", OF _ a], goal_cases)
  case (1 fill xs s y)
  let ?s1 = "pollEstopDuringMotion s"
  note f1 = pollEstop_frame[of s]
  show ?case
  proof (cases "length xs < US_BLOCK_SIZE")
    case False
    with 1(2) show ?thesis by auto
  next
    case True
    show ?thesis
    proof (cases "estop ?s1")
      case e: True
      with True 1(2) f1 show ?thesis by (auto simp: Let_def)
    next
      case e: False
      obtain d s2 where p: "pingDistanceCm ?s1 = (d, s2)" by (cases "pingDistanceCm ?s1")
      with True e 1(2)
      have "fill (case d of None \<Rightarrow> xs | Some x \<Rightarrow> xs @ [x]) s2 = Some y"
        by (simp add: Let_def)
      from 1(1)[OF this] have "io_frame s2 (snd y)" .
      with f1 pingDistanceCm_frame[OF p] show ?thesis using io_frame_trans by blast
    qed
  qed
qed

lemma medianOfBlock_fill_frame: "medianOfBlock_fill xs s = Some (r, s') \<Longrightarrow> io_frame s s'"
  using medianOfBlock_fill_frame_snd by fastforce

lemma medianOfBlockCm_frame: "medianOfBlockCm s = Some (m, s') \<Longrightarrow> io_frame s s'"
  by (auto simp: medianOfBlockCm_def split: option.splits prod.splits dest: medianOfBlock_fill_frame)

lemma robust_window_frame_snd:
  assumes a: "robust_window t0 meds s = Some y"
  shows "io_frame s (snd y)"
proof (rule robust_window.raw_induct[where P = "\<lambda>t0 meds s y. io_frame s (snd y)", OF _ a], goal_cases)
  case (1 win t0 meds s y)
  obtain now s1 where m: "millis s = (now, s1)" by (cases "millis s")
  note f1 = millis_frame[OF m]
  let ?s2 = "pollEstopDuringMotion s1"
  note f2 = io_frame_trans[OF f1 pollEstop_frame[of s1]]
  show ?case
  proof (cases "now - t0 < US_WINDOW_MS \<and> \<not> estop ?s2")
    case False
    with 1(2) m have "snd y = s1 \<or> snd y = ?s2" by (auto simp: Let_def split: if_splits)
    with f1 f2 show ?thesis by auto
  next
    case True
    with 1(2) m obtain mm s3 where b: "medianOfBlockCm ?s2 = Some (mm, s3)"
      by (auto simp: Let_def split: option.splits)
    note f3 = io_frame_trans[OF f2 medianOfBlockCm_frame[OF b]]
    define meds' where "meds' = (case mm of None \<Rightarrow> meds | Some x \<Rightarrow> meds @ [x])"
    show ?thesis
    proof (cases "MAX_BLOCKS \<le> length meds'")
      case mb: True
      with 1(2) m True b have "snd y = s3" by (auto simp: Let_def meds'_def)
      with f3 show ?thesis by simp
    next
      case mb: False
      with 1(2) m True b have "win t0 meds' s3 = Some y" by (simp add: Let_def meds'_def)
      from 1(1)[OF this] f3 show ?thesis using io_frame_trans by blast
    qed
  qed
qed

lemma robust_window_frame: "robust_window t0 meds s = Some (r, s') \<Longrightarrow> io_frame s s'"
  using robust_window_frame_snd by fastforce

lemma readRobustDistance4sCm_frame:
  assumes "readRobustDistance4sCm s = Some (d, s')"
  shows "io_frame s s'"
proof -
  obtain t0 s1 where m: "millis s = (t0, s1)" by (cases "millis s")
  with assms obtain r where w: "robust_window t0 [] s1 = Some (r, s')"
    by (auto simp: readRobustDistance4sCm_def split: option.splits)
  from millis_frame[OF m] robust_window_frame[OF w] show ?thesis by (rule io_frame_trans)
qed

lemma home_sample_frame: "home_sample n gaps s = (ok, gaps', s') \<Longrightarrow> io_frame s s'"
proof (induction n arbitrary: gaps s)
  case 0 then show ?case by simp
next
  case (Suc n)
  obtain b g s1 where k: "seekNextPressEventCCW s = (b, g, s1)"
    by (cases "seekNextPressEventCCW s")
  show ?case
  proof (cases b)
    case False
    with Suc.prems k seek_frame[OF k] show ?thesis by simp
  next
    case True
    with Suc.prems k have "home_sample n (gaps @ [g]) s1 = (ok, gaps', s')" by simp
    from seek_frame[OF k] Suc.IH[OF this] show ?thesis by (rule io_frame_trans)
  qed
qed

text \<open>What a run of \<^verbatim>\<open>homeRoutine\<close> leaves alone, and what it sets when it succeeds.\<close>

definition home_frame :: "st \<Rightarrow> st \<Rightarrow> bool" where
  "home_frame s s' =
     (beamStableBlocked s' = beamStableBlocked s
      \<and> beamLastRawBlocked s' = beamLastRawBlocked s
      \<and> beamLastChangeMs s' = beamLastChangeMs s
      \<and> gateLockout s' = gateLockout s \<and> gateOpenedAtMs s' = gateOpenedAtMs s
      \<and> inventoryPending s' = inventoryPending s
      \<and> cmdBuf s' = cmdBuf s \<and> tx s' = tx s
      \<and> moveOneBinCalls s' = moveOneBinCalls s
      \<and> serialIn s' = serialIn s \<and> indexIn s' = indexIn s \<and> beamIn s' = beamIn s
      \<and> clockIn s' = clockIn s \<and> echoIn s' = echoIn s
      \<and> pulses s \<le> pulses s')"

lemma io_frame_home_frame: "io_frame s s' \<Longrightarrow> home_frame s s'"
  by (simp add: io_frame_def home_frame_def)

definition home_scan_post :: "st \<Rightarrow> bool \<times> st \<Rightarrow> bool" where
  "home_scan_post s y =
     (home_frame s (snd y) \<and> encoderGapThresholdSteps (snd y) = encoderGapThresholdSteps s
      \<and> inventoryRequested (snd y) = inventoryRequested s
      \<and> binRequested (snd y) = binRequested s
      \<and> requestedBin (snd y) = requestedBin s
      \<and> (estop s \<longrightarrow> estop (snd y))
      \<and> (if fst y then homed (snd y) \<and> currentBin (snd y) = 0 \<and> lastSelectedBin (snd y) = 0
          else homed (snd y) = homed s \<and> currentBin (snd y) = currentBin s
               \<and> lastSelectedBin (snd y) = lastSelectedBin s))"

lemma home_scan_post_fail: "io_frame s s1 \<Longrightarrow> home_scan_post s (False, s1)"
  by (simp add: io_frame_def home_frame_def home_scan_post_def)

lemma home_scan_post_done:
  "io_frame s s2 \<Longrightarrow>
   home_scan_post s (True, s2\<lparr>currentBin := 0, homed := True, lastSelectedBin := 0\<rparr>)"
  by (simp add: io_frame_def home_frame_def home_scan_post_def)

lemma home_scan_post_step: "io_frame s s1 \<Longrightarrow> home_scan_post s1 y \<Longrightarrow> home_scan_post s y"
  by (simp add: io_frame_def home_frame_def home_scan_post_def)

lemma home_scan_effect:
  assumes a: "home_scan s = Some y"
  shows "home_scan_post s y"
proof (rule home_scan.raw_induct[where P = home_scan_post, OF _ a], goal_cases)
  case (1 scan s y)
  obtain b g s1 where k: "seekNextPressEventCCW s = (b, g, s1)"
    by (cases "seekNextPressEventCCW s")
  note f1 = seek_frame[OF k]
  show ?case
  proof (cases b)
    case False
    with 1(2) k have "y = (False, s1)" by simp
    with f1 show ?thesis by (simp add: home_scan_post_fail)
  next
    case True
    show ?thesis
    proof (cases "g < encoderGapThresholdSteps s1")
      case False
      with 1(2) k True have "scan s1 = Some y" by simp
      from f1 1(1)[OF this] show ?thesis by (rule home_scan_post_step)
    next
      case lt: True
      obtain b2 s2 where o: "applyIndexOffset s1 = (b2, s2)" by (cases "applyIndexOffset s1")
      note f2 = io_frame_trans[OF f1 applyIndexOffset_frame[OF o]]
      from 1(2) k True lt o
      have "y = (if b2 then (True, s2\<lparr>currentBin := 0, homed := True, lastSelectedBin := 0\<rparr>)
                 else (False, s2))" by (auto split: if_splits)
      with f2 show ?thesis by (simp add: home_scan_post_fail home_scan_post_done)
    qed
  qed
qed


lemma home_reset_frame: "home_frame s (home_reset s)"
  by (simp add: home_frame_def home_reset_def)

lemma home_frame_trans: "home_frame s s1 \<Longrightarrow> home_frame s1 s2 \<Longrightarrow> home_frame s s2"
  by (simp add: home_frame_def)

lemma homeRoutine_effect:
  assumes "homeRoutine s = Some (ok, s')"
  shows "home_frame s s'"
    and "\<not> inventoryRequested s'" and "\<not> binRequested s'" and "requestedBin s' = - 1"
    and "ok \<Longrightarrow> homed s' \<and> currentBin s' = 0 \<and> lastSelectedBin s' = 0"
    and "\<not> ok \<Longrightarrow> \<not> homed s' \<and> currentBin s' = - 1 \<and> lastSelectedBin s' = lastSelectedBin s"
proof -
  let ?r = "home_reset s"
  obtain b1 g1 s1 where k: "seekNextPressEventCCW ?r = (b1, g1, s1)"
    by (cases "seekNextPressEventCCW ?r")
  note f1 = seek_frame[OF k]
  have r0: "\<not> inventoryRequested ?r \<and> \<not> binRequested ?r \<and> requestedBin ?r = - 1
            \<and> \<not> homed ?r \<and> currentBin ?r = - 1 \<and> lastSelectedBin ?r = lastSelectedBin s"
    by (simp add: home_reset_def)
  have goal: "home_frame s s' \<and> \<not> inventoryRequested s' \<and> \<not> binRequested s'
      \<and> requestedBin s' = - 1
      \<and> (if ok then homed s' \<and> currentBin s' = 0 \<and> lastSelectedBin s' = 0
          else \<not> homed s' \<and> currentBin s' = - 1 \<and> lastSelectedBin s' = lastSelectedBin s)"
  proof (cases b1)
    case False
    with assms k have "ok = False" "s' = s1" by (auto simp: homeRoutine_def)
    with f1 r0 home_reset_frame[of s] show ?thesis
      by (simp add: io_frame_def home_frame_def)
  next
    case True
    obtain b2 gaps s2 where h: "home_sample HOME_SAMPLE_EVENTS [] s1 = (b2, gaps, s2)"
      by (cases "home_sample HOME_SAMPLE_EVENTS [] s1")
    note f2 = io_frame_trans[OF f1 home_sample_frame[OF h]]
    show ?thesis
    proof (cases b2)
      case False
      with assms k True h have "ok = False" "s' = s2" by (auto simp: homeRoutine_def)
      with f2 r0 home_reset_frame[of s] show ?thesis
        by (simp add: io_frame_def home_frame_def)
    next
      case b2: True
      let ?s3 = "s2\<lparr>encoderGapThresholdSteps := home_threshold gaps\<rparr>"
      from assms k True h b2 have "home_scan ?s3 = Some (ok, s')" by (simp add: homeRoutine_def)
      from home_scan_effect[OF this] f2 r0 home_reset_frame[of s] show ?thesis
        by (simp add: io_frame_def home_frame_def home_scan_post_def split: if_splits)
    qed
  qed
  from goal show "home_frame s s'"
    and "\<not> inventoryRequested s'" and "\<not> binRequested s'" and "requestedBin s' = - 1"
    and "ok \<Longrightarrow> homed s' \<and> currentBin s' = 0 \<and> lastSelectedBin s' = 0"
    and "\<not> ok \<Longrightarrow> \<not> homed s' \<and> currentBin s' = - 1 \<and> lastSelectedBin s' = lastSelectedBin s"
    by (simp_all split: if_splits)
qed

lemma moveBins_loop_frame:
  "moveBins_loop n s = (ok, s') \<Longrightarrow>
     beamStableBlocked s' = beamStableBlocked s \<and> gateLockout s' = gateLockout s
     \<and> gateOpenedAtMs s' = gateOpenedAtMs s \<and> inventoryPending s' = inventoryPending s
     \<and> inventoryRequested s' = inventoryRequested s \<and> binRequested s' = binRequested s
     \<and> requestedBin s' = requestedBin s \<and> lastSelectedBin s' = lastSelectedBin s
     \<and> homed s' = homed s \<and> tx s' = tx s \<and> clockIn s' = clockIn s
     \<and> pulses s \<le> pulses s' \<and> (estop s \<longrightarrow> estop s')"
proof (induction n arbitrary: s)
  case 0 then show ?case by simp
next
  case (Suc n)
  obtain b s1 where m: "moveOneBin s = (b, s1)" by (cases "moveOneBin s")
  have f: "beamStableBlocked s1 = beamStableBlocked s \<and> gateLockout s1 = gateLockout s
     \<and> gateOpenedAtMs s1 = gateOpenedAtMs s \<and> inventoryPending s1 = inventoryPending s
     \<and> inventoryRequested s1 = inventoryRequested s \<and> binRequested s1 = binRequested s
     \<and> requestedBin s1 = requestedBin s \<and> lastSelectedBin s1 = lastSelectedBin s
     \<and> homed s1 = homed s \<and> tx s1 = tx s \<and> clockIn s1 = clockIn s
     \<and> pulses s \<le> pulses s1 \<and> (estop s \<longrightarrow> estop s1)"
    using m
    by (auto simp: moveOneBin_def Let_def io_frame_def
           split: if_splits prod.splits bool.splits
           dest!: seek_frame applyIndexOffset_frame)
  show ?case
  proof (cases b)
    case False
    with Suc.prems m f show ?thesis by simp
  next
    case True
    with Suc.prems m have "moveBins_loop n s1 = (ok, s')" by simp
    from Suc.IH[OF this] f show ?thesis by simp
  qed
qed

lemma moveToBin_frame:
  "moveToBin t s = (ok, s') \<Longrightarrow>
     beamStableBlocked s' = beamStableBlocked s \<and> gateLockout s' = gateLockout s
     \<and> gateOpenedAtMs s' = gateOpenedAtMs s \<and> inventoryPending s' = inventoryPending s
     \<and> inventoryRequested s' = inventoryRequested s \<and> binRequested s' = binRequested s
     \<and> requestedBin s' = requestedBin s \<and> lastSelectedBin s' = lastSelectedBin s
     \<and> homed s' = homed s \<and> tx s' = tx s \<and> clockIn s' = clockIn s
     \<and> pulses s \<le> pulses s' \<and> (estop s \<longrightarrow> estop s')"
  by (auto simp: moveToBin_def Let_def moveBins_def split: if_splits prod.splits bool.splits
           dest!: moveBins_loop_frame)


section \<open>Runs on a silent serial line\<close>

text \<open>
  What the motion operations compute when no byte arrives on the serial line and the
  E-stop is not set: every pulse is issued, and a seek ends at the next fresh press
  event the index oracle shows. \<open>advance p q i\<close> moves the pulse count and the read
  positions of the serial and index oracles forward.
\<close>

definition quiet :: "st \<Rightarrow> bool" where
  "quiet s = (rx s = [] \<and> \<not> estop s \<and> (\<forall>k\<ge>serialPos s. serialIn s k = []))"

definition advance :: "nat \<Rightarrow> nat \<Rightarrow> nat \<Rightarrow> st \<Rightarrow> st" where
  "advance p q i s =
     s\<lparr>pulses := pulses s + p, serialPos := serialPos s + q, indexPos := indexPos s + i\<rparr>"

lemma advance_0 [simp]: "advance 0 0 0 s = s"
  by (simp add: advance_def)

lemma advance_advance [simp]:
  "advance p q i (advance p' q' i' s) = advance (p' + p) (q' + q) (i' + i) s"
  by (simp add: advance_def add.assoc)

lemma quiet_advance [simp]: "quiet s \<Longrightarrow> quiet (advance p q i s)"
  by (simp add: quiet_def advance_def)

lemma advance_fields [simp]:
  "indexIn (advance p q i s) = indexIn s" "indexPos (advance p q i s) = indexPos s + i"
  "pulses (advance p q i s) = pulses s + p" "serialPos (advance p q i s) = serialPos s + q"
  by (simp_all add: advance_def)

lemma enableDriver_advance:
  "enableDriver on (advance p q i s) = advance p q i (enableDriver on s)"
  by (simp add: advance_def enableDriver_def)

lemma quiet_enableDriver [simp]: "quiet (enableDriver on s) = quiet s"
  by (simp add: quiet_def enableDriver_def)

lemma enableDriver_fields [simp]:
  "indexIn (enableDriver on s) = indexIn s" "indexPos (enableDriver on s) = indexPos s"
  by (simp_all add: enableDriver_def)

lemma pollEstop_quiet: "quiet s \<Longrightarrow> pollEstopDuringMotion s = advance 0 1 0 s"
  by (cases s) (simp add: quiet_def pollEstopDuringMotion_def serialArrive_def advance_def Let_def)

lemma stepPulseChecked_quiet: "quiet s \<Longrightarrow> stepPulseChecked d s = (True, advance 1 2 0 s)"
  by (cases s)
     (simp add: quiet_def stepPulseChecked_def pollEstopDuringMotion_def serialArrive_def
                advance_def Let_def)

lemma stepCCW_loop_quiet:
  "quiet s \<Longrightarrow> stepCCW_loop n d s = (True, enableDriver False (advance n (2 * n) 0 s))"
proof (induction n arbitrary: s)
  case 0 then show ?case by simp
next
  case (Suc n)
  from Suc.prems have "quiet (advance 1 2 0 s)" by simp
  from Suc.IH[OF this] Suc.prems show ?case by (simp add: stepPulseChecked_quiet)
qed

lemma seek_escape_quiet:
  "quiet s \<Longrightarrow> seek_escape n m s = (True, m + int n, advance n (2 * n) 0 s)"
proof (induction n arbitrary: s m)
  case 0 then show ?case by simp
next
  case (Suc n)
  from Suc.prems have "quiet (advance 1 2 0 s)" by simp
  from Suc.IH[OF this] Suc.prems show ?case by (simp add: stepPulseChecked_quiet)
qed

lemma indexPressedRaw_eq: "indexPressedRaw s = (indexIn s (indexPos s), advance 0 0 1 s)"
  by (simp add: indexPressedRaw_def advance_def)

lemma confirmReleased_polls_all:
  "(\<forall>i<n. \<not> indexIn s (indexPos s + i)) \<Longrightarrow>
     confirmReleased_polls n ok s = (ok + int n, advance 0 0 n s)"
proof (induction n arbitrary: s ok)
  case 0 then show ?case by simp
next
  case (Suc n)
  from Suc.prems have a: "\<not> indexIn s (indexPos s)" by force
  have "\<forall>i<n. \<not> indexIn (advance 0 0 1 s) (indexPos (advance 0 0 1 s) + i)"
  proof (intro allI impI)
    fix i assume "i < n"
    with Suc.prems have "\<not> indexIn s (indexPos s + Suc i)" by blast
    then show "\<not> indexIn (advance 0 0 1 s) (indexPos (advance 0 0 1 s) + i)" by simp
  qed
  from Suc.IH[OF this] a show ?case by (simp add: indexPressedRaw_eq)
qed

lemma confirmPressed_polls_all:
  "(\<forall>i<n. indexIn s (indexPos s + i)) \<Longrightarrow>
     confirmPressed_polls n ok s = (ok + int n, advance 0 0 n s)"
proof (induction n arbitrary: s ok)
  case 0 then show ?case by simp
next
  case (Suc n)
  from Suc.prems have a: "indexIn s (indexPos s)" by force
  have "\<forall>i<n. indexIn (advance 0 0 1 s) (indexPos (advance 0 0 1 s) + i)"
  proof (intro allI impI)
    fix i assume "i < n"
    with Suc.prems have "indexIn s (indexPos s + Suc i)" by blast
    then show "indexIn (advance 0 0 1 s) (indexPos (advance 0 0 1 s) + i)" by simp
  qed
  from Suc.IH[OF this] a show ?case by (simp add: indexPressedRaw_eq)
qed

lemma confirmPressed_polls_state: "snd (confirmPressed_polls n ok s) = advance 0 0 n s"
  by (induction n arbitrary: s ok) (simp_all add: indexPressedRaw_eq)

lemma confirmPressed_polls_last:
  "\<not> indexIn s (indexPos s + n) \<Longrightarrow> fst (confirmPressed_polls (Suc n) ok s) = 0"
proof (induction n arbitrary: s ok)
  case 0 then show ?case by (simp add: indexPressedRaw_eq)
next
  case (Suc n)
  from Suc.prems have "\<not> indexIn (advance 0 0 1 s) (indexPos (advance 0 0 1 s) + n)" by simp
  from Suc.IH[OF this] show ?case by (simp add: indexPressedRaw_eq)
qed

lemma confirmReleased_ok:
  "(\<forall>i<7. \<not> indexIn s (indexPos s + i)) \<Longrightarrow> confirmReleased s = (True, advance 0 0 7 s)"
  by (simp add: confirmReleased_def RELEASE_CONFIRM_POLLS_def confirmReleased_polls_all)

lemma confirmPressed_ok:
  "(\<forall>i<5. indexIn s (indexPos s + i)) \<Longrightarrow> confirmPressed s = (True, advance 0 0 5 s)"
  by (simp add: confirmPressed_def PRESS_CONFIRM_POLLS_def confirmPressed_polls_all)

lemma confirmPressed_no:
  assumes "\<not> indexIn s (indexPos s + 4)"
  shows "confirmPressed s = (False, advance 0 0 5 s)"
proof -
  obtain ok s1 where r: "confirmPressed_polls (Suc 4) 0 s = (ok, s1)"
    by (cases "confirmPressed_polls (Suc 4) 0 s")
  from confirmPressed_polls_last[OF assms, of 0] r have "ok = 0" by simp
  moreover from confirmPressed_polls_state[of "Suc 4" 0 s] r have "s1 = advance 0 0 5 s" by simp
  moreover have "PRESS_CONFIRM_POLLS = Suc 4" by (simp add: PRESS_CONFIRM_POLLS_def)
  ultimately show ?thesis using r by (simp add: confirmPressed_def)
qed

lemma seek_release_ok:
  "(\<forall>i<7. \<not> indexIn s (indexPos s + i)) \<Longrightarrow>
     seek_release d g m s = (True, m, advance 0 0 7 s)"
  by (simp add: seek_release.simps[of d g m s] confirmReleased_ok)


lemma advance_eqI:
  "p = p' \<Longrightarrow> q = q' \<Longrightarrow> i = i' \<Longrightarrow> advance p q i s = advance p' q' i' s"
  by simp

lemma seek_press_hit:
  assumes "quiet s" and "g + int K + 1 \<le> MAX_STEPS_TO_FIND_INDEX"
    and "\<forall>j<K. \<not> indexIn s (indexPos s + 6 * j + 5)"
    and "\<forall>i<5. indexIn s (indexPos s + 6 * K + 1 + i)"
    and "\<forall>i<7. \<not> indexIn s (indexPos s + 6 * K + 6 + i)"
  shows "seek_press g c m s =
           (True, m + int K + 31,
            enableDriver False (advance (K + 31) (2 * (K + 31)) (6 * K + 13) s))"
  using assms
proof (induction K arbitrary: s g c m)
  case 0
  let ?s1 = "advance 0 0 1 s"
  let ?s2 = "advance 1 2 0 ?s1"
  let ?s3 = "advance 0 0 5 ?s2"
  let ?s4 = "advance 30 (2 * 30) 0 ?s3"
  let ?s5 = "advance 0 0 7 ?s4"
  have q1: "quiet ?s1" and q3: "quiet ?s3" using "0.prems"(1) by simp_all
  have p: "stepPulseChecked d ?s1 = (True, ?s2)" for d
    by (rule stepPulseChecked_quiet[OF q1])
  have cp: "confirmPressed ?s2 = (True, ?s3)"
  proof (rule confirmPressed_ok, intro allI impI)
    fix i :: nat assume "i < 5"
    with "0.prems"(4) have h: "indexIn s (indexPos s + 6 * 0 + 1 + i)" by blast
    have e: "indexPos ?s2 + i = indexPos s + 6 * 0 + 1 + i" by (simp add: advance_def)
    have f: "indexIn ?s2 = indexIn s" by (simp add: advance_def)
    from h show "indexIn ?s2 (indexPos ?s2 + i)" unfolding e f .
  qed
  have es: "seek_escape POST_HIT_ESCAPE_STEPS (m + 1) ?s3 = (True, m + 1 + int 30, ?s4)"
    unfolding POST_HIT_ESCAPE_STEPS_def by (rule seek_escape_quiet[OF q3])
  have rl: "seek_release APPROACH_DELAY_US 0 (m + 1 + int 30) ?s4 = (True, m + 1 + int 30, ?s5)"
  proof (rule seek_release_ok, intro allI impI)
    fix i :: nat assume "i < 7"
    with "0.prems"(5) have h: "\<not> indexIn s (indexPos s + 6 * 0 + 6 + i)" by blast
    have e: "indexPos ?s4 + i = indexPos s + 6 * 0 + 6 + i" by (simp add: advance_def)
    have f: "indexIn ?s4 = indexIn s" by (simp add: advance_def)
    from h show "\<not> indexIn ?s4 (indexPos ?s4 + i)" unfolding e f .
  qed
  have fin: "?s5 = advance (0 + 31) (2 * (0 + 31)) (6 * 0 + 13) s"
    by (simp add: advance_def)
  have "seek_press g c m s = (True, m + 1 + int 30, enableDriver False ?s5)"
    using "0.prems"(2)
    by (simp only: seek_press.simps[of g c m s] indexPressedRaw_eq Let_def p cp es rl
                   prod.case bool.case if_False if_True)
       (simp add: MAX_STEPS_TO_FIND_INDEX_def)?
  then show ?case unfolding fin by simp
next
  case (Suc K)
  let ?s1 = "advance 0 0 1 s"
  let ?s2 = "advance 1 2 0 ?s1"
  let ?s3 = "advance 0 0 5 ?s2"
  have q1: "quiet ?s1" and q3: "quiet ?s3" using Suc.prems(1) by simp_all
  have p: "stepPulseChecked d ?s1 = (True, ?s2)" for d
    by (rule stepPulseChecked_quiet[OF q1])
  have cp: "confirmPressed ?s2 = (False, ?s3)"
  proof (rule confirmPressed_no)
    from Suc.prems(3) have h: "\<not> indexIn s (indexPos s + 6 * 0 + 5)" by blast
    have e: "indexPos ?s2 + 4 = indexPos s + 6 * 0 + 5" by (simp add: advance_def)
    have f: "indexIn ?s2 = indexIn s" by (simp add: advance_def)
    from h show "\<not> indexIn ?s2 (indexPos ?s2 + 4)" unfolding e f .
  qed
  have g3: "g + 1 + int K + 1 \<le> MAX_STEPS_TO_FIND_INDEX" using Suc.prems(2) by simp
  have a3: "\<forall>j<K. \<not> indexIn ?s3 (indexPos ?s3 + 6 * j + 5)"
  proof (intro allI impI)
    fix j assume "j < K"
    then have "Suc j < Suc K" by simp
    with Suc.prems(3) have h: "\<not> indexIn s (indexPos s + 6 * Suc j + 5)" by blast
    have e: "indexPos ?s3 + 6 * j + 5 = indexPos s + 6 * Suc j + 5" by (simp add: advance_def)
    have f: "indexIn ?s3 = indexIn s" by (simp add: advance_def)
    from h show "\<not> indexIn ?s3 (indexPos ?s3 + 6 * j + 5)" unfolding e f .
  qed
  have b3: "\<forall>i<5. indexIn ?s3 (indexPos ?s3 + 6 * K + 1 + i)"
  proof (intro allI impI)
    fix i :: nat assume "i < 5"
    with Suc.prems(4) have h: "indexIn s (indexPos s + 6 * Suc K + 1 + i)" by blast
    have e: "indexPos ?s3 + 6 * K + 1 + i = indexPos s + 6 * Suc K + 1 + i"
      by (simp add: advance_def)
    have f: "indexIn ?s3 = indexIn s" by (simp add: advance_def)
    from h show "indexIn ?s3 (indexPos ?s3 + 6 * K + 1 + i)" unfolding e f .
  qed
  have c3: "\<forall>i<7. \<not> indexIn ?s3 (indexPos ?s3 + 6 * K + 6 + i)"
  proof (intro allI impI)
    fix i :: nat assume "i < 7"
    with Suc.prems(5) have h: "\<not> indexIn s (indexPos s + 6 * Suc K + 6 + i)" by blast
    have e: "indexPos ?s3 + 6 * K + 6 + i = indexPos s + 6 * Suc K + 6 + i"
      by (simp add: advance_def)
    have f: "indexIn ?s3 = indexIn s" by (simp add: advance_def)
    from h show "\<not> indexIn ?s3 (indexPos ?s3 + 6 * K + 6 + i)" unfolding e f .
  qed
  note ih = Suc.IH[OF q3 g3 a3 b3 c3]
  have fin: "advance (K + 31) (2 * (K + 31)) (6 * K + 13) ?s3
               = advance (Suc K + 31) (2 * (Suc K + 31)) (6 * Suc K + 13) s"
    by (simp add: advance_def)
  have gd: "\<not> g + 1 > MAX_STEPS_TO_FIND_INDEX" using Suc.prems(2) by simp
  have "seek_press g c m s =
          seek_press (g + 1)
            (if (if indexIn s (indexPos s) then APPROACH_WINDOW_STEPS else c) > 0
             then (if indexIn s (indexPos s) then APPROACH_WINDOW_STEPS else c) - 1
             else (if indexIn s (indexPos s) then APPROACH_WINDOW_STEPS else c))
            (m + 1) ?s3"
    by (simp only: seek_press.simps[of g c m s] indexPressedRaw_eq Let_def p cp gd
                   prod.case bool.case if_False if_True)
  then show ?case unfolding ih fin by simp
qed

text \<open>
  A fresh press event after \<open>K\<close> idle steps, as the index oracle shows it from the read
  position on: the switch reads released while the release is confirmed; each of the
  first \<open>K\<close> steps ends in a failed confirmation; the next step is confirmed pressed; and
  after the escape steps the switch reads released again.
\<close>

definition index_event :: "nat \<Rightarrow> st \<Rightarrow> bool" where
  "index_event K s =
     ((\<forall>i<7. \<not> indexIn s (indexPos s + i))
      \<and> (\<forall>j<K. \<not> indexIn s (indexPos s + (7 + 6 * j + 5)))
      \<and> (\<forall>i<5. indexIn s (indexPos s + (7 + 6 * K + 1 + i)))
      \<and> (\<forall>i<7. \<not> indexIn s (indexPos s + (7 + 6 * K + 6 + i))))"

definition after_seek :: "nat \<Rightarrow> st \<Rightarrow> st" where
  "after_seek K s = enableDriver False (advance (K + 31) (2 * (K + 31)) (6 * K + 20) s)"

lemma seek_quiet:
  assumes "quiet s" "index_event K s" "int K < MAX_STEPS_TO_FIND_INDEX"
  shows "seekNextPressEventCCW s = (True, int K + 31, after_seek K s)"
proof -
  let ?s0 = "enableDriver True s"
  let ?s1 = "advance 0 0 7 ?s0"
  from assms(2) have r: "seek_release SEEK_DELAY_US 0 0 ?s0 = (True, 0, ?s1)"
    by (simp add: seek_release_ok index_event_def)
  have q1: "quiet ?s1" using assms(1) by simp
  have g: "0 + int K + 1 \<le> MAX_STEPS_TO_FIND_INDEX" using assms(3) by simp
  have f: "indexIn ?s1 = indexIn s" by (simp add: advance_def enableDriver_def)
  have a: "\<forall>j<K. \<not> indexIn ?s1 (indexPos ?s1 + 6 * j + 5)"
  proof (intro allI impI)
    fix j assume "j < K"
    with assms(2) have h: "\<not> indexIn s (indexPos s + (7 + 6 * j + 5))"
      unfolding index_event_def by blast
    have e: "indexPos ?s1 + 6 * j + 5 = indexPos s + (7 + 6 * j + 5)"
      by (simp add: advance_def enableDriver_def)
    from h show "\<not> indexIn ?s1 (indexPos ?s1 + 6 * j + 5)" unfolding e f .
  qed
  have b: "\<forall>i<5. indexIn ?s1 (indexPos ?s1 + 6 * K + 1 + i)"
  proof (intro allI impI)
    fix i :: nat assume "i < 5"
    with assms(2) have h: "indexIn s (indexPos s + (7 + 6 * K + 1 + i))"
      unfolding index_event_def by blast
    have e: "indexPos ?s1 + 6 * K + 1 + i = indexPos s + (7 + 6 * K + 1 + i)"
      by (simp add: advance_def enableDriver_def)
    from h show "indexIn ?s1 (indexPos ?s1 + 6 * K + 1 + i)" unfolding e f .
  qed
  have c: "\<forall>i<7. \<not> indexIn ?s1 (indexPos ?s1 + 6 * K + 6 + i)"
  proof (intro allI impI)
    fix i :: nat assume "i < 7"
    with assms(2) have h: "\<not> indexIn s (indexPos s + (7 + 6 * K + 6 + i))"
      unfolding index_event_def by blast
    have e: "indexPos ?s1 + 6 * K + 6 + i = indexPos s + (7 + 6 * K + 6 + i)"
      by (simp add: advance_def enableDriver_def)
    from h show "\<not> indexIn ?s1 (indexPos ?s1 + 6 * K + 6 + i)" unfolding e f .
  qed
  have e: "enableDriver False (advance (K + 31) (2 * (K + 31)) (6 * K + 13) ?s1) = after_seek K s"
    by (simp add: after_seek_def enableDriver_def advance_def add.commute)
  from seek_press_hit[OF q1 g a b c, of 0 0] r e show ?thesis
    by (simp add: seekNextPressEventCCW_def)
qed

lemma applyIndexOffset_quiet:
  "quiet s \<Longrightarrow> applyIndexOffset s = (True, enableDriver False (advance 58 116 0 s))"
proof -
  assume q: "quiet s"
  have d: "degToSteps (INDEX_TO_STOP_DEG + TRIM_DEG) = 58"
    by code_simp
  have "stepCCW_loop 58 OFFSET_DELAY_US (enableDriver True s)
          = (True, enableDriver False (advance 58 (2 * 58) 0 (enableDriver True s)))"
    using q by (intro stepCCW_loop_quiet) simp
  then show ?thesis
    by (simp add: applyIndexOffset_def d stepCCW_def enableDriver_def advance_def)
qed


section \<open>Homing\<close>

text \<open>The guards bound the steps of a seek, whatever the switch does.\<close>

lemma seek_release_steps:
  "seek_release d g m s = (ok, m', s') \<Longrightarrow> g \<le> MAX_STEPS_TO_FIND_INDEX \<Longrightarrow>
     m \<le> m' \<and> m' - m \<le> MAX_STEPS_TO_FIND_INDEX + 1 - g"
proof (induction d g m s rule: seek_release.induct)
  case (1 d g m s)
  note pr = "1.prems"(1)[unfolded seek_release.simps[of d g m s]]
  obtain r s1 where c: "confirmReleased s = (r, s1)" by (cases "confirmReleased s")
  obtain b s2 where p: "stepPulseChecked d s1 = (b, s2)" by (cases "stepPulseChecked d s1")
  have mx: "0 \<le> MAX_STEPS_TO_FIND_INDEX"
    by (simp add: MAX_STEPS_TO_FIND_INDEX_def STEPS_PER_REV_def FULL_STEPS_PER_REV_def MICROSTEP_def)
  consider (rel) "r" | (stop) "\<not> r" "\<not> b \<or> g + 1 > MAX_STEPS_TO_FIND_INDEX"
    | (again) "\<not> r" b "\<not> g + 1 > MAX_STEPS_TO_FIND_INDEX" by blast
  then show ?case
  proof cases
    case rel
    with pr c "1.prems"(2) mx show ?thesis by auto
  next
    case stop
    with pr c p "1.prems"(2) mx show ?thesis by (auto split: if_splits bool.splits)
  next
    case again
    with pr c p have e: "seek_release d (g + 1) (m + 1) s2 = (ok, m', s')" by simp
    have "m + 1 \<le> m' \<and> m' - (m + 1) \<le> MAX_STEPS_TO_FIND_INDEX + 1 - (g + 1)"
      using "1.IH"[OF c[symmetric] _ p[symmetric] _ _ e] again "1.prems"(2) by simp
    then show ?thesis by simp
  qed
qed

lemma seek_escape_steps:
  "seek_escape n m s = (ok, m', s') \<Longrightarrow> m \<le> m' \<and> m' - m \<le> int n"
proof (induction n arbitrary: m s)
  case 0 then show ?case by simp
next
  case (Suc n)
  obtain b s1 where r: "stepPulseChecked APPROACH_DELAY_US s = (b, s1)"
    by (cases "stepPulseChecked APPROACH_DELAY_US s")
  show ?case
  proof (cases b)
    case True
    with Suc.prems r have "seek_escape n (m + 1) s1 = (ok, m', s')" by simp
    from Suc.IH[OF this] show ?thesis by simp
  next
    case False
    with Suc.prems r show ?thesis by simp
  qed
qed

lemma seek_press_steps:
  "seek_press g c m s = (ok, m', s') \<Longrightarrow> g \<le> MAX_STEPS_TO_FIND_INDEX \<Longrightarrow>
     m \<le> m' \<and> m' - m \<le> (MAX_STEPS_TO_FIND_INDEX + 1 - g) + 30 + (MAX_STEPS_TO_FIND_INDEX + 1)"
proof (induction g c m s arbitrary: ok m' s' rule: seek_press.induct)
  case (1 g c m s)
  note ih = "1.IH" and pr = "1.prems"(1)[unfolded seek_press.simps[of g c m s]]
  have mx: "0 \<le> MAX_STEPS_TO_FIND_INDEX"
    by (simp add: MAX_STEPS_TO_FIND_INDEX_def STEPS_PER_REV_def FULL_STEPS_PER_REV_def MICROSTEP_def)
  obtain p s1 where i: "indexPressedRaw s = (p, s1)" by (cases "indexPressedRaw s")
  define cd where "cd = (if p then APPROACH_WINDOW_STEPS else c)"
  define dl where "dl = (if cd > 0 then APPROACH_DELAY_US else SEEK_DELAY_US)"
  obtain b s2 where q: "stepPulseChecked dl s1 = (b, s2)" by (cases "stepPulseChecked dl s1")
  obtain h s3 where k: "confirmPressed s2 = (h, s3)" by (cases "confirmPressed s2")
  consider (stop) "\<not> b \<or> g + 1 > MAX_STEPS_TO_FIND_INDEX"
    | (again) "b" "\<not> g + 1 > MAX_STEPS_TO_FIND_INDEX" "\<not> h"
    | (hit) "b" "\<not> g + 1 > MAX_STEPS_TO_FIND_INDEX" "h" by blast
  then show ?case
  proof cases
    case stop
    with pr i q "1.prems"(2) mx show ?thesis
      by (auto simp: Let_def cd_def dl_def split: if_splits bool.splits)
  next
    case again
    with pr i q k
    have e: "seek_press (g + 1) (if cd > 0 then cd - 1 else cd) (m + 1) s3 = (ok, m', s')"
      by (simp add: Let_def cd_def dl_def del: if_split cong: if_cong)
    have "m + 1 \<le> m' \<and> m' - (m + 1) \<le> (MAX_STEPS_TO_FIND_INDEX + 1 - (g + 1)) + 30 + (MAX_STEPS_TO_FIND_INDEX + 1)"
      using ih[OF i[symmetric] cd_def dl_def q[symmetric] _ _ k[symmetric] _ e] again "1.prems"(2)
      by simp
    then show ?thesis by simp
  next
    case hit
    obtain b4 m4 s4 where es: "seek_escape POST_HIT_ESCAPE_STEPS (m + 1) s3 = (b4, m4, s4)"
      by (cases "seek_escape POST_HIT_ESCAPE_STEPS (m + 1) s3")
    obtain b5 m5 s5 where rl: "seek_release APPROACH_DELAY_US 0 m4 s4 = (b5, m5, s5)"
      by (cases "seek_release APPROACH_DELAY_US 0 m4 s4")
    from seek_escape_steps[OF es] have b4: "m + 1 \<le> m4 \<and> m4 - (m + 1) \<le> 30"
      by (simp add: POST_HIT_ESCAPE_STEPS_def)
    from seek_release_steps[OF rl] mx have b5: "m4 \<le> m5 \<and> m5 - m4 \<le> MAX_STEPS_TO_FIND_INDEX + 1"
      by simp
    from pr i q k hit es rl have "m' = m4 \<or> m' = m5"
      by (auto simp: Let_def cd_def dl_def split: bool.splits)
    with b4 b5 hit(2) "1.prems"(2) show ?thesis by auto
  qed
qed

lemma seek_steps:
  assumes "seekNextPressEventCCW s = (ok, g, s')"
  shows "0 \<le> g \<and> g \<le> 14433"
proof -
  obtain b m1 s1 where r: "seek_release SEEK_DELAY_US 0 0 (enableDriver True s) = (b, m1, s1)"
    by (cases "seek_release SEEK_DELAY_US 0 0 (enableDriver True s)")
  have mx: "MAX_STEPS_TO_FIND_INDEX = 4800"
    by (simp add: MAX_STEPS_TO_FIND_INDEX_def STEPS_PER_REV_def FULL_STEPS_PER_REV_def MICROSTEP_def)
  from seek_release_steps[OF r] mx have b1: "0 \<le> m1 \<and> m1 \<le> 4801" by simp
  show ?thesis
  proof (cases b)
    case False
    with assms r b1 show ?thesis by (simp add: seekNextPressEventCCW_def)
  next
    case True
    with assms r have "seek_press 0 0 m1 s1 = (ok, g, s')" by (simp add: seekNextPressEventCCW_def)
    from seek_press_steps[OF this] mx b1 show ?thesis by simp
  qed
qed

text \<open>
  For a gap of that size the threshold of the source, computed with the binary32 value
  of \<^verbatim>\<open>0.60f\<close>, is the gap times 0.6 rounded to the nearest integer.
\<close>

lemma gap_ratio_round:
  assumes "0 \<le> n" "n \<le> 14433"
  shows "to_long (of_int n * ENCODER_GAP_RATIO + 1 / 2) = round (of_int n * (6 / 10) :: rat)"
proof -
  let ?q = "(6 * n + 5) div 10"
  have lo: "10 * ?q \<le> 6 * n + 5" and hi: "6 * n + 5 < 10 * ?q + 10" by presburger+
  from lo have lo': "(10 * of_int ?q :: rat) \<le> 6 * of_int n + 5"
    by (metis (mono_tags) of_int_le_iff of_int_add of_int_mult of_int_numeral)
  from hi have "6 * n + 5 \<le> 10 * ?q + 9" by simp
  then have hi': "(6 * of_int n + 5 :: rat) \<le> 10 * of_int ?q + 9"
    by (metis (mono_tags) of_int_le_iff of_int_add of_int_mult of_int_numeral)
  have n0: "(0::rat) \<le> of_int n" and n1: "(of_int n :: rat) \<le> 14433" using assms by simp_all
  have f1: "\<lfloor>of_int n * ENCODER_GAP_RATIO + 1 / 2\<rfloor> = ?q"
    unfolding ENCODER_GAP_RATIO_def using lo' hi' n0 n1 by (intro floor_unique) linarith+
  have f2: "\<lfloor>of_int n * (6 / 10) + 1 / 2 :: rat\<rfloor> = ?q"
    using lo' hi' by (intro floor_unique) linarith+
  have nn: "(0::rat) \<le> of_int n * ENCODER_GAP_RATIO + 1 / 2"
    unfolding ENCODER_GAP_RATIO_def using n0 by simp
  show ?thesis by (simp only: to_long_def nn if_True f1 round_def f2)
qed


text \<open>
  The gaps of the next \<open>n\<close> fresh press events: \<open>n\<close> seeks in a row, each of which
  succeeds.
\<close>

fun seek_gaps :: "nat \<Rightarrow> st \<Rightarrow> (int list \<times> st) option" where
  "seek_gaps 0 s = Some ([], s)"
| "seek_gaps (Suc n) s =
     (case seekNextPressEventCCW s of
        (False, g, s1) \<Rightarrow> None
      | (True, g, s1) \<Rightarrow>
          (case seek_gaps n s1 of
             None \<Rightarrow> None
           | Some (gs, s2) \<Rightarrow> Some (g # gs, s2)))"

text \<open>The median as the source takes it: the element in the middle of the sorted values,
  the upper one of the two when their number is even.\<close>

definition median :: "int list \<Rightarrow> int" where
  "median xs = sort xs ! (length xs div 2)"

text \<open>It is a median: at least half of the values are not above it, at least half not
  below it.\<close>

lemma median_middle:
  assumes "xs \<noteq> []"
  shows "length xs \<le> 2 * length (filter (\<lambda>x. x \<le> median xs) xs)"
    and "length xs \<le> 2 * length (filter (\<lambda>x. median xs \<le> x) xs)"
proof -
  let ?ys = "sort xs"
  let ?k = "length xs div 2"
  let ?m = "?ys ! ?k"
  have n: "length ?ys = length xs" by simp
  have k: "?k < length ?ys" using assms by simp
  have c: "length (filter P xs) = length (filter P ?ys)" for P
    by (simp add: filter_sort)
  have lo: "\<forall>x \<in> set (take (Suc ?k) ?ys). x \<le> ?m"
  proof
    fix x assume "x \<in> set (take (Suc ?k) ?ys)"
    then obtain i where "i < Suc ?k" "x = ?ys ! i"
      using k by (auto simp: in_set_conv_nth)
    then show "x \<le> ?m" using k by (auto intro: sorted_nth_mono)
  qed
  have hi: "\<forall>x \<in> set (drop ?k ?ys). ?m \<le> x"
  proof
    fix x assume "x \<in> set (drop ?k ?ys)"
    then obtain i where "i < length ?ys - ?k" "x = ?ys ! (?k + i)"
      by (auto simp: in_set_conv_nth)
    then show "?m \<le> x" by (auto intro: sorted_nth_mono)
  qed
  have "length (filter (\<lambda>x. x \<le> ?m) (take (Suc ?k) ?ys)) = Suc ?k"
    using lo k by (simp add: filter_True)
  moreover have "length (filter (\<lambda>x. x \<le> ?m) (take (Suc ?k) ?ys))
      \<le> length (filter (\<lambda>x. x \<le> ?m) (take (Suc ?k) ?ys @ drop (Suc ?k) ?ys))"
    by (simp only: filter_append length_append le_add1)
  ultimately have a: "Suc ?k \<le> length (filter (\<lambda>x. x \<le> ?m) ?ys)" by simp
  have "length (filter (\<lambda>x. ?m \<le> x) (drop ?k ?ys)) = length ?ys - ?k"
    using hi by (simp add: filter_True)
  moreover have "length (filter (\<lambda>x. ?m \<le> x) (drop ?k ?ys))
      \<le> length (filter (\<lambda>x. ?m \<le> x) (take ?k ?ys @ drop ?k ?ys))"
    by (simp only: filter_append length_append le_add1)
  ultimately have b: "length xs - ?k \<le> length (filter (\<lambda>x. ?m \<le> x) ?ys)" by simp
  from a show "length xs \<le> 2 * length (filter (\<lambda>x. x \<le> median xs) xs)"
    unfolding median_def c[of "\<lambda>x. x \<le> ?m"] by linarith
  from b show "length xs \<le> 2 * length (filter (\<lambda>x. median xs \<le> x) xs)"
    unfolding median_def c[of "\<lambda>x. ?m \<le> x"] by linarith
qed

lemma seek_gaps_length: "seek_gaps n s = Some (gs, s') \<Longrightarrow> length gs = n"
  by (induction n arbitrary: s gs) (auto split: prod.splits bool.splits option.splits)

lemma seek_gaps_bound:
  "seek_gaps n s = Some (gs, s') \<Longrightarrow> \<forall>g\<in>set gs. 0 \<le> g \<and> g \<le> 14433"
proof (induction n arbitrary: s gs)
  case 0 then show ?case by simp
next
  case (Suc n)
  obtain b g s1 where k: "seekNextPressEventCCW s = (b, g, s1)"
    by (cases "seekNextPressEventCCW s")
  with Suc.prems obtain gs' where r: "seek_gaps n s1 = Some (gs', s')" "gs = g # gs'" "b"
    by (auto split: bool.splits option.splits)
  from Suc.IH[OF r(1)] seek_steps[OF k] r(2) show ?case by simp
qed

lemma home_sample_gaps:
  "home_sample n gaps s = (True, gaps', s') \<Longrightarrow>
     \<exists>gs. seek_gaps n s = Some (gs, s') \<and> gaps' = gaps @ gs"
proof (induction n arbitrary: gaps s)
  case 0 then show ?case by simp
next
  case (Suc n)
  obtain b g s1 where k: "seekNextPressEventCCW s = (b, g, s1)"
    by (cases "seekNextPressEventCCW s")
  with Suc.prems have b: "b" and r: "home_sample n (gaps @ [g]) s1 = (True, gaps', s')"
    by (auto split: bool.splits)
  from Suc.IH[OF r] obtain gs where "seek_gaps n s1 = Some (gs, s')" "gaps' = (gaps @ [g]) @ gs"
    by blast
  with k b show ?case by simp
qed

definition home_scan_trace :: "st \<Rightarrow> bool \<times> st \<Rightarrow> bool" where
  "home_scan_trace s y =
     (fst y \<longrightarrow>
       (\<exists>k gs s1 s2.
          seek_gaps (Suc k) s = Some (gs, s1)
          \<and> (\<forall>i<k. \<not> gs ! i < encoderGapThresholdSteps s)
          \<and> gs ! k < encoderGapThresholdSteps s
          \<and> applyIndexOffset s1 = (True, s2)
          \<and> snd y = s2\<lparr>currentBin := 0, homed := True, lastSelectedBin := 0\<rparr>))"

lemma home_scan_first_short:
  assumes a: "home_scan s = Some y"
  shows "home_scan_trace s y"
proof (rule home_scan.raw_induct[where P = home_scan_trace, OF _ a], goal_cases)
  case (1 scan s y)
  obtain b g s1 where k: "seekNextPressEventCCW s = (b, g, s1)"
    by (cases "seekNextPressEventCCW s")
  from seek_frame[OF k] have th: "encoderGapThresholdSteps s1 = encoderGapThresholdSteps s"
    by (simp add: io_frame_def)
  show ?case
  proof (cases b)
    case False
    with 1(2) k show ?thesis by (auto simp: home_scan_trace_def)
  next
    case True
    show ?thesis
    proof (cases "g < encoderGapThresholdSteps s1")
      case False
      with 1(2) k True have "scan s1 = Some y" by simp
      from 1(1)[OF this] have t: "home_scan_trace s1 y" .
      show ?thesis unfolding home_scan_trace_def
      proof
        assume "fst y"
        with t obtain j gs s2 s3 where
          g: "seek_gaps (Suc j) s1 = Some (gs, s2)"
          and n: "\<forall>i<j. \<not> gs ! i < encoderGapThresholdSteps s1"
          and h: "gs ! j < encoderGapThresholdSteps s1"
          and o: "applyIndexOffset s2 = (True, s3)"
          and e: "snd y = s3\<lparr>currentBin := 0, homed := True, lastSelectedBin := 0\<rparr>"
          unfolding home_scan_trace_def by blast
        from k True g have g': "seek_gaps (Suc (Suc j)) s = Some (g # gs, s2)" by simp
        have n': "\<forall>i<Suc j. \<not> (g # gs) ! i < encoderGapThresholdSteps s"
        proof (intro allI impI)
          fix i assume "i < Suc j"
          then show "\<not> (g # gs) ! i < encoderGapThresholdSteps s"
            using n False th by (cases i) auto
        qed
        from h th have h': "(g # gs) ! Suc j < encoderGapThresholdSteps s" by simp
        from g' n' h' o e
        show "\<exists>k gs s1 s2.
          seek_gaps (Suc k) s = Some (gs, s1)
          \<and> (\<forall>i<k. \<not> gs ! i < encoderGapThresholdSteps s)
          \<and> gs ! k < encoderGapThresholdSteps s
          \<and> applyIndexOffset s1 = (True, s2)
          \<and> snd y = s2\<lparr>currentBin := 0, homed := True, lastSelectedBin := 0\<rparr>"
          by blast
      qed
    next
      case lt: True
      obtain b2 s2 where o: "applyIndexOffset s1 = (b2, s2)" by (cases "applyIndexOffset s1")
      show ?thesis unfolding home_scan_trace_def
      proof
        assume f: "fst y"
        from 1(2) k True lt o
        have "y = (if b2 then (True, s2\<lparr>currentBin := 0, homed := True, lastSelectedBin := 0\<rparr>)
                   else (False, s2))" by (auto split: if_splits)
        with f
        have b2: "b2" and e: "snd y = s2\<lparr>currentBin := 0, homed := True, lastSelectedBin := 0\<rparr>"
          by (simp_all split: if_splits)
        from k True have g': "seek_gaps (Suc 0) s = Some ([g], s1)" by simp
        from lt th have h': "[g] ! 0 < encoderGapThresholdSteps s" by simp
        from g' h' o b2 e
        show "\<exists>k gs s1 s2.
          seek_gaps (Suc k) s = Some (gs, s1)
          \<and> (\<forall>i<k. \<not> gs ! i < encoderGapThresholdSteps s)
          \<and> gs ! k < encoderGapThresholdSteps s
          \<and> applyIndexOffset s1 = (True, s2)
          \<and> snd y = s2\<lparr>currentBin := 0, homed := True, lastSelectedBin := 0\<rparr>"
          by (intro exI[of _ 0] exI[of _ "[g]"] exI[of _ s1] exI[of _ s2]) simp
      qed
    qed
  qed
qed

lemma home_threshold_round:
  assumes "length gaps = 10" "\<forall>g\<in>set gaps. 0 \<le> g \<and> g \<le> 14433"
  shows "home_threshold gaps = round (of_int (median gaps) * (6 / 10) :: rat)"
proof -
  have "sort gaps ! 5 \<in> set (sort gaps)" using assms(1) by (intro nth_mem) simp
  with assms(2) have "0 \<le> sort gaps ! 5 \<and> sort gaps ! 5 \<le> 14433" by simp
  then show ?thesis
    using assms(1)
    by (simp add: home_threshold_def median_def HOME_SAMPLE_EVENTS_def Let_def gap_ratio_round)
qed

text \<open>
  Claim C4. When \<^verbatim>\<open>homeRoutine\<close> succeeds it has discarded the first press event,
  recorded the gaps of exactly 10 further press events, and stored as threshold the
  median of those gaps times 0.6, rounded to the nearest integer; it then sought press
  events until the first gap strictly below the threshold, applied the index offset
  there and declared bin 0. The median of the ten gaps is \<^verbatim>\<open>sorted[5]\<close>.
\<close>

theorem homeRoutine_threshold:
  assumes "homeRoutine s = Some (True, s')"
  shows "\<exists>g0 s1 gaps s2 k scan s3 s4.
      seekNextPressEventCCW (home_reset s) = (True, g0, s1)
    \<and> seek_gaps 10 s1 = Some (gaps, s2) \<and> length gaps = 10
    \<and> encoderGapThresholdSteps s' = round (of_int (median gaps) * (6 / 10) :: rat)
    \<and> seek_gaps (Suc k) (s2\<lparr>encoderGapThresholdSteps := encoderGapThresholdSteps s'\<rparr>)
          = Some (scan, s3)
    \<and> (\<forall>i<k. \<not> scan ! i < encoderGapThresholdSteps s')
    \<and> scan ! k < encoderGapThresholdSteps s'
    \<and> applyIndexOffset s3 = (True, s4)
    \<and> s' = s4\<lparr>currentBin := 0, homed := True, lastSelectedBin := 0\<rparr>"
proof -
  let ?r = "home_reset s"
  obtain b1 g0 s1 where k: "seekNextPressEventCCW ?r = (b1, g0, s1)"
    by (cases "seekNextPressEventCCW ?r")
  obtain b2 gaps s2 where h: "home_sample HOME_SAMPLE_EVENTS [] s1 = (b2, gaps, s2)"
    by (cases "home_sample HOME_SAMPLE_EVENTS [] s1")
  from assms k have b1: b1 by (auto simp: homeRoutine_def split: bool.splits)
  from assms k b1 h have b2: b2 by (auto simp: homeRoutine_def split: bool.splits)
  let ?T = "home_threshold gaps"
  let ?s3 = "s2\<lparr>encoderGapThresholdSteps := ?T\<rparr>"
  from assms k b1 h b2 have sc: "home_scan ?s3 = Some (True, s')" by (simp add: homeRoutine_def)
  from h b2 have "\<exists>gs. seek_gaps 10 s1 = Some (gs, s2) \<and> gaps = [] @ gs"
    by (intro home_sample_gaps) (simp add: HOME_SAMPLE_EVENTS_def)
  then have sg: "seek_gaps 10 s1 = Some (gaps, s2)" by simp
  note len = seek_gaps_length[OF sg]
  from home_scan_effect[OF sc] have th: "encoderGapThresholdSteps s' = ?T"
    by (simp add: home_scan_post_def)
  from home_threshold_round[OF len seek_gaps_bound[OF sg]]
  have rd: "?T = round (of_int (median gaps) * (6 / 10) :: rat)" .
  from home_scan_first_short[OF sc] obtain j gs s4 s5 where
      g: "seek_gaps (Suc j) ?s3 = Some (gs, s4)"
      and n: "\<forall>i<j. \<not> gs ! i < ?T" and hh: "gs ! j < ?T"
      and o: "applyIndexOffset s4 = (True, s5)"
      and e: "s' = s5\<lparr>currentBin := 0, homed := True, lastSelectedBin := 0\<rparr>"
    unfolding home_scan_trace_def by auto
  from k b1 sg len th rd g n hh o e show ?thesis
    by (intro exI[of _ g0] exI[of _ s1] exI[of _ gaps] exI[of _ s2] exI[of _ j] exI[of _ gs]
              exI[of _ s4] exI[of _ s5]) simp
qed

text \<open>
  Claim C9. A successful \<^verbatim>\<open>homeRoutine\<close> sets \<^verbatim>\<open>lastSelectedBin\<close> to 0 together with
  \<^verbatim>\<open>currentBin\<close>, so the check \<^verbatim>\<open>lastSelectedBin < 0 || lastSelectedBin > 3\<close> of the
  inventory sequence passes right after homing.
\<close>

theorem homeRoutine_sets_lastSelectedBin:
  assumes "homeRoutine s = Some (True, s')"
  shows "lastSelectedBin s' = 0 \<and> currentBin s' = 0 \<and> homed s'
         \<and> \<not> (lastSelectedBin s' < 0 \<or> lastSelectedBin s' > 3)"
  using homeRoutine_effect(5)[OF assms] by simp


section \<open>An example carousel\<close>

text \<open>
  The switch of the example shows two press events per 172 reads, the gaps before them
  being 31 and 53 steps. \<open>switch_at r s\<close>: from its read position on, the index oracle
  of \<open>s\<close> is the example switch from read \<open>r\<close> on. \<open>silent s\<close>: no byte is buffered
  and none arrives any more. \<open>moved p q i s\<close> is the state \<open>p\<close> pulses, \<open>q\<close> serial
  polls and \<open>i\<close> index reads after \<open>s\<close>, the driver off.
\<close>

definition demo_index :: "nat \<Rightarrow> bool" where
  "demo_index k = ((8 \<le> k mod 172 \<and> k mod 172 < 13) \<or> (160 \<le> k mod 172 \<and> k mod 172 < 165))"

definition silent :: "st \<Rightarrow> bool" where
  "silent s = (rx s = [] \<and> (\<forall>k\<ge>serialPos s. serialIn s k = []))"

definition switch_at :: "nat \<Rightarrow> st \<Rightarrow> bool" where
  "switch_at r s = (\<forall>x. indexIn s (indexPos s + x) = demo_index (r + x))"

definition moved :: "nat \<Rightarrow> nat \<Rightarrow> nat \<Rightarrow> st \<Rightarrow> st" where
  "moved p q i s = enableDriver False (advance p q i s)"

lemma moved_moved [simp]:
  "moved p q i (moved p' q' i' s) = moved (p' + p) (q' + q) (i' + i) s"
  by (simp add: moved_def enableDriver_def advance_def add.assoc)

lemma moved_sel [simp]:
    "estop (moved p q i s) = estop s"
    "homed (moved p q i s) = homed s"
    "currentBin (moved p q i s) = currentBin s"
    "encoderGapThresholdSteps (moved p q i s) = encoderGapThresholdSteps s"
    "beamStableBlocked (moved p q i s) = beamStableBlocked s"
    "beamLastRawBlocked (moved p q i s) = beamLastRawBlocked s"
    "beamLastChangeMs (moved p q i s) = beamLastChangeMs s"
    "gateLockout (moved p q i s) = gateLockout s"
    "gateOpenedAtMs (moved p q i s) = gateOpenedAtMs s"
    "inventoryPending (moved p q i s) = inventoryPending s"
    "lastSelectedBin (moved p q i s) = lastSelectedBin s"
    "inventoryRequested (moved p q i s) = inventoryRequested s"
    "binRequested (moved p q i s) = binRequested s"
    "requestedBin (moved p q i s) = requestedBin s"
    "cmdBuf (moved p q i s) = cmdBuf s"
    "tx (moved p q i s) = tx s"
    "moveOneBinCalls (moved p q i s) = moveOneBinCalls s"
    "beamPos (moved p q i s) = beamPos s"
    "clockPos (moved p q i s) = clockPos s"
    "echoPos (moved p q i s) = echoPos s"
    "serialIn (moved p q i s) = serialIn s"
    "indexIn (moved p q i s) = indexIn s"
    "beamIn (moved p q i s) = beamIn s"
    "clockIn (moved p q i s) = clockIn s"
    "echoIn (moved p q i s) = echoIn s"
    "rx (moved p q i s) = rx s"
  by (simp_all add: moved_def enableDriver_def advance_def)

lemma moved_counts [simp]:
  "driverOn (moved p q i s) = False" "pulses (moved p q i s) = pulses s + p"
  "serialPos (moved p q i s) = serialPos s + q" "indexPos (moved p q i s) = indexPos s + i"
  by (simp_all add: moved_def enableDriver_def advance_def)

lemma moved_update [simp]:
    "moved p q i (s\<lparr>estop := v0\<rparr>) = (moved p q i s)\<lparr>estop := v0\<rparr>"
    "moved p q i (s\<lparr>homed := v1\<rparr>) = (moved p q i s)\<lparr>homed := v1\<rparr>"
    "moved p q i (s\<lparr>currentBin := v2\<rparr>) = (moved p q i s)\<lparr>currentBin := v2\<rparr>"
    "moved p q i (s\<lparr>encoderGapThresholdSteps := v3\<rparr>) = (moved p q i s)\<lparr>encoderGapThresholdSteps := v3\<rparr>"
    "moved p q i (s\<lparr>beamStableBlocked := v4\<rparr>) = (moved p q i s)\<lparr>beamStableBlocked := v4\<rparr>"
    "moved p q i (s\<lparr>beamLastRawBlocked := v5\<rparr>) = (moved p q i s)\<lparr>beamLastRawBlocked := v5\<rparr>"
    "moved p q i (s\<lparr>beamLastChangeMs := v6\<rparr>) = (moved p q i s)\<lparr>beamLastChangeMs := v6\<rparr>"
    "moved p q i (s\<lparr>gateLockout := v7\<rparr>) = (moved p q i s)\<lparr>gateLockout := v7\<rparr>"
    "moved p q i (s\<lparr>gateOpenedAtMs := v8\<rparr>) = (moved p q i s)\<lparr>gateOpenedAtMs := v8\<rparr>"
    "moved p q i (s\<lparr>inventoryPending := v9\<rparr>) = (moved p q i s)\<lparr>inventoryPending := v9\<rparr>"
    "moved p q i (s\<lparr>lastSelectedBin := v10\<rparr>) = (moved p q i s)\<lparr>lastSelectedBin := v10\<rparr>"
    "moved p q i (s\<lparr>inventoryRequested := v11\<rparr>) = (moved p q i s)\<lparr>inventoryRequested := v11\<rparr>"
    "moved p q i (s\<lparr>binRequested := v12\<rparr>) = (moved p q i s)\<lparr>binRequested := v12\<rparr>"
    "moved p q i (s\<lparr>requestedBin := v13\<rparr>) = (moved p q i s)\<lparr>requestedBin := v13\<rparr>"
    "moved p q i (s\<lparr>cmdBuf := v14\<rparr>) = (moved p q i s)\<lparr>cmdBuf := v14\<rparr>"
    "moved p q i (s\<lparr>tx := v15\<rparr>) = (moved p q i s)\<lparr>tx := v15\<rparr>"
    "moved p q i (s\<lparr>moveOneBinCalls := v16\<rparr>) = (moved p q i s)\<lparr>moveOneBinCalls := v16\<rparr>"
    "moved p q i (s\<lparr>beamPos := v17\<rparr>) = (moved p q i s)\<lparr>beamPos := v17\<rparr>"
    "moved p q i (s\<lparr>clockPos := v18\<rparr>) = (moved p q i s)\<lparr>clockPos := v18\<rparr>"
    "moved p q i (s\<lparr>echoPos := v19\<rparr>) = (moved p q i s)\<lparr>echoPos := v19\<rparr>"
  by (simp_all add: moved_def enableDriver_def advance_def)

lemma silent_update [simp]:
    "silent (s\<lparr>estop := v0\<rparr>) = silent s"
    "silent (s\<lparr>homed := v1\<rparr>) = silent s"
    "silent (s\<lparr>currentBin := v2\<rparr>) = silent s"
    "silent (s\<lparr>encoderGapThresholdSteps := v3\<rparr>) = silent s"
    "silent (s\<lparr>beamStableBlocked := v4\<rparr>) = silent s"
    "silent (s\<lparr>beamLastRawBlocked := v5\<rparr>) = silent s"
    "silent (s\<lparr>beamLastChangeMs := v6\<rparr>) = silent s"
    "silent (s\<lparr>gateLockout := v7\<rparr>) = silent s"
    "silent (s\<lparr>gateOpenedAtMs := v8\<rparr>) = silent s"
    "silent (s\<lparr>inventoryPending := v9\<rparr>) = silent s"
    "silent (s\<lparr>lastSelectedBin := v10\<rparr>) = silent s"
    "silent (s\<lparr>inventoryRequested := v11\<rparr>) = silent s"
    "silent (s\<lparr>binRequested := v12\<rparr>) = silent s"
    "silent (s\<lparr>requestedBin := v13\<rparr>) = silent s"
    "silent (s\<lparr>cmdBuf := v14\<rparr>) = silent s"
    "silent (s\<lparr>tx := v15\<rparr>) = silent s"
    "silent (s\<lparr>moveOneBinCalls := v16\<rparr>) = silent s"
    "silent (s\<lparr>beamPos := v17\<rparr>) = silent s"
    "silent (s\<lparr>clockPos := v18\<rparr>) = silent s"
    "silent (s\<lparr>echoPos := v19\<rparr>) = silent s"
    "silent (s\<lparr>driverOn := v20\<rparr>) = silent s"
    "silent (s\<lparr>pulses := v21\<rparr>) = silent s"
    "silent (s\<lparr>indexPos := v22\<rparr>) = silent s"
  by (simp_all add: silent_def)

lemma switch_at_update [simp]:
    "switch_at r (s\<lparr>estop := v0\<rparr>) = switch_at r s"
    "switch_at r (s\<lparr>homed := v1\<rparr>) = switch_at r s"
    "switch_at r (s\<lparr>currentBin := v2\<rparr>) = switch_at r s"
    "switch_at r (s\<lparr>encoderGapThresholdSteps := v3\<rparr>) = switch_at r s"
    "switch_at r (s\<lparr>beamStableBlocked := v4\<rparr>) = switch_at r s"
    "switch_at r (s\<lparr>beamLastRawBlocked := v5\<rparr>) = switch_at r s"
    "switch_at r (s\<lparr>beamLastChangeMs := v6\<rparr>) = switch_at r s"
    "switch_at r (s\<lparr>gateLockout := v7\<rparr>) = switch_at r s"
    "switch_at r (s\<lparr>gateOpenedAtMs := v8\<rparr>) = switch_at r s"
    "switch_at r (s\<lparr>inventoryPending := v9\<rparr>) = switch_at r s"
    "switch_at r (s\<lparr>lastSelectedBin := v10\<rparr>) = switch_at r s"
    "switch_at r (s\<lparr>inventoryRequested := v11\<rparr>) = switch_at r s"
    "switch_at r (s\<lparr>binRequested := v12\<rparr>) = switch_at r s"
    "switch_at r (s\<lparr>requestedBin := v13\<rparr>) = switch_at r s"
    "switch_at r (s\<lparr>cmdBuf := v14\<rparr>) = switch_at r s"
    "switch_at r (s\<lparr>tx := v15\<rparr>) = switch_at r s"
    "switch_at r (s\<lparr>moveOneBinCalls := v16\<rparr>) = switch_at r s"
    "switch_at r (s\<lparr>beamPos := v17\<rparr>) = switch_at r s"
    "switch_at r (s\<lparr>clockPos := v18\<rparr>) = switch_at r s"
    "switch_at r (s\<lparr>echoPos := v19\<rparr>) = switch_at r s"
    "switch_at r (s\<lparr>driverOn := v20\<rparr>) = switch_at r s"
    "switch_at r (s\<lparr>pulses := v21\<rparr>) = switch_at r s"
    "switch_at r (s\<lparr>serialPos := v22\<rparr>) = switch_at r s"
    "switch_at r (s\<lparr>rx := v23\<rparr>) = switch_at r s"
  by (simp_all add: switch_at_def)

lemma silent_moved [simp]: "silent s \<Longrightarrow> silent (moved p q i s)"
  by (simp add: silent_def moved_def enableDriver_def advance_def)

lemma demo_index_mod: "a mod 172 = b mod 172 \<Longrightarrow> demo_index (a + x) = demo_index (b + x)"
  unfolding demo_index_def by (simp only: mod_add_left_eq[symmetric, of a] mod_add_left_eq[symmetric, of b])

lemma switch_at_moved [simp]:
  assumes "switch_at ((r + 171 * i) mod 172) s"
  shows "switch_at r (moved p q i s)"
proof -
  have m: "((r + 171 * i) mod 172 + i) mod 172 = r mod 172"
    by (simp add: mod_add_left_eq)
  have "indexIn (moved p q i s) (indexPos (moved p q i s) + x) = demo_index (r + x)" for x
  proof -
    have "indexIn (moved p q i s) (indexPos (moved p q i s) + x) = indexIn s (indexPos s + (i + x))"
      by (simp add: add.assoc)
    also have "\<dots> = demo_index ((r + 171 * i) mod 172 + (i + x))"
      using assms unfolding switch_at_def by blast
    also have "\<dots> = demo_index (((r + 171 * i) mod 172 + i) + x)" by (simp add: add.assoc)
    also have "\<dots> = demo_index (r + x)" by (rule demo_index_mod) (simp add: m)
    finally show ?thesis .
  qed
  then show ?thesis unfolding switch_at_def by blast
qed

lemma quiet_iff: "quiet s = (silent s \<and> \<not> estop s)"
  by (auto simp: quiet_def silent_def)

lemma index_event_short: "switch_at 0 s \<Longrightarrow> index_event 0 s"
  unfolding index_event_def switch_at_def demo_index_def by simp

lemma index_event_long: "switch_at 20 s \<Longrightarrow> index_event 22 s"
  unfolding index_event_def switch_at_def demo_index_def by simp

lemma seek_short [simp]:
  assumes "switch_at 0 s" "silent s" "\<not> estop s"
  shows "seekNextPressEventCCW s = (True, 31, moved 31 62 20 s)"
  using seek_quiet[OF _ index_event_short[OF assms(1)]] assms(2,3)
  by (simp add: quiet_iff after_seek_def moved_def MAX_STEPS_TO_FIND_INDEX_def STEPS_PER_REV_def
                FULL_STEPS_PER_REV_def MICROSTEP_def)

lemma seek_long [simp]:
  assumes "switch_at 20 s" "silent s" "\<not> estop s"
  shows "seekNextPressEventCCW s = (True, 53, moved 53 106 152 s)"
  using seek_quiet[OF _ index_event_long[OF assms(1)]] assms(2,3)
  by (simp add: quiet_iff after_seek_def moved_def MAX_STEPS_TO_FIND_INDEX_def STEPS_PER_REV_def
                FULL_STEPS_PER_REV_def MICROSTEP_def)

lemma offset_silent [simp]:
  assumes "silent s" "\<not> estop s"
  shows "applyIndexOffset s = (True, moved 58 116 0 s)"
  using applyIndexOffset_quiet[of s] assms by (simp add: quiet_iff moved_def)


lemma home_threshold_demo: "home_threshold [53, 31, 53, 31, 53, 31, 53, 31, 53, 31] = 32"
  by code_simp

text \<open>On the example carousel homing succeeds after 13 press events and 593 pulses.\<close>

definition homed_demo :: "st \<Rightarrow> st" where
  "homed_demo s = (moved 593 1186 1052 (home_reset s))
       \<lparr>encoderGapThresholdSteps := 32, currentBin := 0, homed := True, lastSelectedBin := 0\<rparr>"

lemma homeRoutine_demo:
  assumes "switch_at 0 s" "silent s"
  shows "homeRoutine s = Some (True, homed_demo s)"
proof -
  let ?r = "home_reset s"
  have r: "switch_at 0 ?r" "silent ?r" "\<not> estop ?r"
    using assms by (simp_all add: home_reset_def)
  have ten: "HOME_SAMPLE_EVENTS = Suc (Suc (Suc (Suc (Suc (Suc (Suc (Suc (Suc (Suc 0)))))))))"
    by (simp add: HOME_SAMPLE_EVENTS_def)
  have first: "seekNextPressEventCCW ?r = (True, 31, moved 31 62 20 ?r)"
    using r by simp
  have sample: "home_sample HOME_SAMPLE_EVENTS [] (moved 31 62 20 ?r)
                  = (True, [53, 31, 53, 31, 53, 31, 53, 31, 53, 31], moved 451 902 880 ?r)"
    unfolding ten using r by simp
  let ?t = "(moved 451 902 880 ?r)\<lparr>encoderGapThresholdSteps := 32\<rparr>"
  let ?u = "(moved 504 1008 1032 ?r)\<lparr>encoderGapThresholdSteps := 32\<rparr>"
  have s1: "seekNextPressEventCCW ?t = (True, 53, ?u)" using r by simp
  have s2: "seekNextPressEventCCW ?u
              = (True, 31, (moved 535 1070 1052 ?r)\<lparr>encoderGapThresholdSteps := 32\<rparr>)"
    using r by simp
  have scan: "home_scan ?t = Some (True, homed_demo s)"
    using r by (simp add: home_scan.simps[of ?t] home_scan.simps[of ?u] s1 s2 homed_demo_def)
  show ?thesis
    by (simp only: homeRoutine_def first sample prod.case bool.case home_threshold_demo scan)
qed

lemma homed_demo_at:
  assumes "switch_at 0 s" "silent s"
  shows "switch_at 20 (homed_demo s)" "silent (homed_demo s)" "\<not> estop (homed_demo s)"
    "homed (homed_demo s)" "currentBin (homed_demo s) = 0" "lastSelectedBin (homed_demo s) = 0"
    "encoderGapThresholdSteps (homed_demo s) = 32"
  using assms by (simp_all add: homed_demo_def home_reset_def)


text \<open>
  The example after power-up: nothing homed, nothing queued, the beam open, the clock
  advancing half a second per reading, every echo 600 microseconds long.
\<close>

definition demo :: st where
  "demo = \<lparr>estop = False, homed = False, currentBin = - 1, encoderGapThresholdSteps = 0,
     beamStableBlocked = False, beamLastRawBlocked = False, beamLastChangeMs = 0,
     gateLockout = False, gateOpenedAtMs = 0, inventoryPending = False,
     lastSelectedBin = - 1, inventoryRequested = False, binRequested = False,
     requestedBin = - 1, cmdBuf = [], driverOn = False, pulses = 0, tx = [],
     moveOneBinCalls = 0, rx = [], serialIn = (\<lambda>k. []), serialPos = 0,
     indexIn = demo_index, indexPos = 0, beamIn = (\<lambda>k. False), beamPos = 0,
     clockIn = (\<lambda>k. of_nat (500 * k)), clockPos = 0, echoIn = (\<lambda>k. 600), echoPos = 0\<rparr>"

lemma demo_at: "switch_at 0 demo" "silent demo"
  by (simp_all add: demo_def switch_at_def silent_def)

theorem homeRoutine_threshold_witness:
  "homeRoutine demo = Some (True, homed_demo demo)
   \<and> encoderGapThresholdSteps (homed_demo demo) = 32
   \<and> (\<exists>g0 s1 gaps s2 k scan s3 s4.
      seekNextPressEventCCW (home_reset demo) = (True, g0, s1)
    \<and> seek_gaps 10 s1 = Some (gaps, s2) \<and> length gaps = 10
    \<and> encoderGapThresholdSteps (homed_demo demo) = round (of_int (median gaps) * (6 / 10) :: rat)
    \<and> seek_gaps (Suc k) (s2\<lparr>encoderGapThresholdSteps := encoderGapThresholdSteps (homed_demo demo)\<rparr>)
          = Some (scan, s3)
    \<and> (\<forall>i<k. \<not> scan ! i < encoderGapThresholdSteps (homed_demo demo))
    \<and> scan ! k < encoderGapThresholdSteps (homed_demo demo)
    \<and> applyIndexOffset s3 = (True, s4)
    \<and> homed_demo demo = s4\<lparr>currentBin := 0, homed := True, lastSelectedBin := 0\<rparr>)"
proof -
  note h = homeRoutine_demo[OF demo_at]
  from homeRoutine_threshold[OF h] h homed_demo_at(7)[OF demo_at] show ?thesis by blast
qed

theorem homeRoutine_sets_lastSelectedBin_witness:
  "homeRoutine demo = Some (True, homed_demo demo)
   \<and> lastSelectedBin (homed_demo demo) = 0 \<and> currentBin (homed_demo demo) = 0
   \<and> homed (homed_demo demo)
   \<and> \<not> (lastSelectedBin (homed_demo demo) < 0 \<or> lastSelectedBin (homed_demo demo) > 3)"
proof -
  note h = homeRoutine_demo[OF demo_at]
  from homeRoutine_sets_lastSelectedBin[OF h] h show ?thesis by blast
qed

lemma moveToBin_demo:
  "moveToBin 1 (homed_demo demo)
     = (True, (moved 111 222 152 (homed_demo demo))\<lparr>moveOneBinCalls := 1, currentBin := 1\<rparr>)"
proof -
  have c: "moveOneBinCalls (homed_demo demo) = 0"
    by (simp add: homed_demo_def home_reset_def demo_def)
  show ?thesis
    using homed_demo_at[OF demo_at] c
    by (simp add: moveToBin_def moveBins_def moveOneBin_def Let_def signed_modulo_int_def)
qed

theorem moveToBin_reaches_target_witness:
  "homed (homed_demo demo) \<and> 0 \<le> currentBin (homed_demo demo)
   \<and> currentBin (homed_demo demo) \<le> 3
   \<and> moveToBin_calls_ok [1, 1, 7] (homed_demo demo)
   \<and> fst (moveToBin 1 (homed_demo demo))
   \<and> \<not> homed demo \<and> moveToBin 1 demo = (False, demo)"
proof -
  note a = homed_demo_at[OF demo_at]
  have n: "\<not> homed demo" by (simp add: demo_def)
  from moveToBin_reaches_target[of "homed_demo demo" "[1, 1, 7]" 1]
       moveToBin_reaches_target[of demo "[]" 1] a(4,5) n moveToBin_demo
  show ?thesis by simp
qed

section \<open>Command queue\<close>

text \<open>
  The sequence up to its final drain: the four checks, the rotation, the measurement and
  the report. \<^verbatim>\<open>runInventorySequence\<close> is this part followed, when it succeeds, by the
  drain.
\<close>

definition inventory_measure :: "st \<Rightarrow> (bool \<times> st) option" where
  "inventory_measure s =
     (if \<not> homed s then Some (False, s)
      else if beamStableBlocked s then Some (False, s)
      else if \<not> inventoryPending s then Some (False, s)
      else if lastSelectedBin s < 0 \<or> lastSelectedBin s > 3 then Some (False, s)
      else
        (case moveBins 2 s of
           (False, s1) \<Rightarrow> Some (False, s1)
         | (True, s1) \<Rightarrow>
             (case readRobustDistance4sCm s1 of
                None \<Rightarrow> None
              | Some (d, s2) \<Rightarrow>
                  if estop s2 then Some (False, s2)
                  else
                    (let isHI = (case d of None \<Rightarrow> False | Some x \<Rightarrow> x < INVENTORY_THRESH_CM);
                         s3 = println (if isHI then ''HI'' else ''LO'') s2;
                         s4 = printInventoryLogLine (lastSelectedBin s3) isHI s3
                     in Some (True, s4\<lparr>inventoryPending := False\<rparr>)))))"

lemma runInventorySequence_measure:
  "runInventorySequence s =
     (case inventory_measure s of
        None \<Rightarrow> None
      | Some (False, s1) \<Rightarrow> Some (False, s1)
      | Some (True, s1) \<Rightarrow>
          (case tryRunQueuedCommands s1 of None \<Rightarrow> None | Some s2 \<Rightarrow> Some (True, s2)))"
  by (simp add: runInventorySequence.simps[of s] inventory_measure_def Let_def
           split: prod.splits bool.splits option.splits)

text \<open>The two conditions under which a drain runs a queued request.\<close>

definition inv_due :: "st \<Rightarrow> bool" where
  "inv_due s = (\<not> estop s \<and> inventoryRequested s \<and> inventoryPending s \<and> \<not> gateLockout s
                \<and> \<not> beamStableBlocked s)"

definition bin_due :: "st \<Rightarrow> bool" where
  "bin_due s = (\<not> estop s \<and> binRequested s \<and> \<not> gateLockout s \<and> \<not> inventoryPending s)"

lemma drain_inventory:
  "inv_due s \<Longrightarrow>
     tryRunQueuedCommands s =
       (case runInventorySequence (s\<lparr>inventoryRequested := False\<rparr>) of
          None \<Rightarrow> None | Some (ok, s1) \<Rightarrow> Some s1)"
  by (simp add: tryRunQueuedCommands.simps[of s] inv_due_def)

lemma drain_bin:
  "bin_due s \<Longrightarrow>
     tryRunQueuedCommands s =
       (case moveToBin (requestedBin s) (s\<lparr>binRequested := False, requestedBin := - 1\<rparr>) of
          (False, s1) \<Rightarrow> Some s1
        | (True, s1) \<Rightarrow> Some (s1\<lparr>lastSelectedBin := requestedBin s\<rparr>))"
  by (simp add: tryRunQueuedCommands.simps[of s] bin_due_def Let_def)

lemma drain_nothing: "\<not> inv_due s \<Longrightarrow> \<not> bin_due s \<Longrightarrow> tryRunQueuedCommands s = Some s"
  by (auto simp: tryRunQueuedCommands.simps[of s] inv_due_def bin_due_def)

text \<open>What a drain and an inventory sequence leave alone.\<close>

definition queue_frame :: "st \<Rightarrow> st \<Rightarrow> bool" where
  "queue_frame s s' =
     (gateLockout s' = gateLockout s \<and> gateOpenedAtMs s' = gateOpenedAtMs s
      \<and> beamStableBlocked s' = beamStableBlocked s \<and> homed s' = homed s
      \<and> (inventoryPending s' \<longrightarrow> inventoryPending s)
      \<and> (inventoryRequested s' \<longrightarrow> inventoryRequested s)
      \<and> (binRequested s' \<longrightarrow> binRequested s)
      \<and> (estop s \<longrightarrow> estop s') \<and> pulses s \<le> pulses s')"

lemma queue_frame_trans: "queue_frame s s1 \<Longrightarrow> queue_frame s1 s2 \<Longrightarrow> queue_frame s s2"
  by (auto simp: queue_frame_def)

lemma printInventoryLogLine_fields:
  "gateLockout (printInventoryLogLine b h s) = gateLockout s"
  "gateOpenedAtMs (printInventoryLogLine b h s) = gateOpenedAtMs s"
  "beamStableBlocked (printInventoryLogLine b h s) = beamStableBlocked s"
  "homed (printInventoryLogLine b h s) = homed s"
  "inventoryPending (printInventoryLogLine b h s) = inventoryPending s"
  "inventoryRequested (printInventoryLogLine b h s) = inventoryRequested s"
  "binRequested (printInventoryLogLine b h s) = binRequested s"
  "requestedBin (printInventoryLogLine b h s) = requestedBin s"
  "currentBin (printInventoryLogLine b h s) = currentBin s"
  "lastSelectedBin (printInventoryLogLine b h s) = lastSelectedBin s"
  "moveOneBinCalls (printInventoryLogLine b h s) = moveOneBinCalls s"
  "estop (printInventoryLogLine b h s) = estop s"
  "pulses (printInventoryLogLine b h s) = pulses s"
  by (simp_all add: printInventoryLogLine_def println_def millis_def split: prod.splits)

lemma inventory_measure_effect:
  assumes "inventory_measure s = Some (ok, s')"
  shows "queue_frame s s'"
    and "inventoryRequested s' = inventoryRequested s" and "binRequested s' = binRequested s"
    and "requestedBin s' = requestedBin s" and "lastSelectedBin s' = lastSelectedBin s"
    and "ok \<Longrightarrow> \<not> inventoryPending s' \<and> \<not> estop s' \<and> homed s \<and> inventoryPending s"
    and "\<not> ok \<Longrightarrow> inventoryPending s' = inventoryPending s"
proof -
  have goal: "queue_frame s s'
      \<and> inventoryRequested s' = inventoryRequested s \<and> binRequested s' = binRequested s
      \<and> requestedBin s' = requestedBin s \<and> lastSelectedBin s' = lastSelectedBin s
      \<and> (if ok then \<not> inventoryPending s' \<and> \<not> estop s' \<and> homed s \<and> inventoryPending s
          else inventoryPending s' = inventoryPending s)"
  proof (cases "\<not> homed s \<or> beamStableBlocked s \<or> \<not> inventoryPending s
                 \<or> lastSelectedBin s < 0 \<or> lastSelectedBin s > 3")
    case True
    with assms have "ok = False \<and> s' = s" by (auto simp: inventory_measure_def split: if_splits)
    then show ?thesis by (simp add: queue_frame_def)
  next
    case pre: False
    obtain b1 s1 where m: "moveBins_loop 2 s = (b1, s1)" by (cases "moveBins_loop 2 s")
    note f1 = moveBins_loop_frame[OF m]
    have m': "moveBins 2 s = (b1, s1)" using m by (simp add: moveBins_def)
    show ?thesis
    proof (cases b1)
      case False
      with assms pre m' have "ok = False \<and> s' = s1" by (auto simp: inventory_measure_def)
      with f1 show ?thesis by (simp add: queue_frame_def)
    next
      case True
      with assms pre m' obtain d s2 where r: "readRobustDistance4sCm s1 = Some (d, s2)"
        by (auto simp: inventory_measure_def split: option.splits)
      note f2 = readRobustDistance4sCm_frame[OF r]
      show ?thesis
      proof (cases "estop s2")
        case e: True
        with assms pre m' True r have "ok = False \<and> s' = s2" by (auto simp: inventory_measure_def)
        with f1 f2 show ?thesis by (simp add: queue_frame_def io_frame_def)
      next
        case e: False
        define isHI where "isHI = (case d of None \<Rightarrow> False | Some x \<Rightarrow> x < INVENTORY_THRESH_CM)"
        define s3 where "s3 = println (if isHI then ''HI'' else ''LO'') s2"
        from assms pre m' True r e
        have "ok = True \<and> s' = (printInventoryLogLine (lastSelectedBin s3) isHI s3)\<lparr>inventoryPending := False\<rparr>"
          by (auto simp: inventory_measure_def Let_def isHI_def s3_def)
        with f1 f2 e pre show ?thesis
          by (simp add: queue_frame_def io_frame_def printInventoryLogLine_fields s3_def println_def)
      qed
    qed
  qed
  from goal show "queue_frame s s'"
    and "inventoryRequested s' = inventoryRequested s" and "binRequested s' = binRequested s"
    and "requestedBin s' = requestedBin s" and "lastSelectedBin s' = lastSelectedBin s"
    and "ok \<Longrightarrow> \<not> inventoryPending s' \<and> \<not> estop s' \<and> homed s \<and> inventoryPending s"
    and "\<not> ok \<Longrightarrow> inventoryPending s' = inventoryPending s"
    by (simp_all split: if_splits)
qed

lemma drain_bin_effect:
  assumes "bin_due s" "tryRunQueuedCommands s = Some s'"
  shows "queue_frame s s'" and "\<not> binRequested s'" and "requestedBin s' = - 1"
    and "inventoryRequested s' = inventoryRequested s"
    and "inventoryPending s' = inventoryPending s"
proof -
  let ?s0 = "s\<lparr>binRequested := False, requestedBin := - 1\<rparr>"
  obtain ok s1 where m: "moveToBin (requestedBin s) ?s0 = (ok, s1)"
    by (cases "moveToBin (requestedBin s) ?s0")
  from assms m have e: "s' = (if ok then s1\<lparr>lastSelectedBin := requestedBin s\<rparr> else s1)"
    by (auto simp: drain_bin split: bool.splits)
  from moveToBin_frame[OF m] e
  show "queue_frame s s'" and "\<not> binRequested s'" and "requestedBin s' = - 1"
    and "inventoryRequested s' = inventoryRequested s"
    and "inventoryPending s' = inventoryPending s"
    by (simp_all add: queue_frame_def)
qed

lemma drain_idle_effect:
  assumes "\<not> inventoryPending s" "tryRunQueuedCommands s = Some s'"
  shows "queue_frame s s'" and "inventoryRequested s' = inventoryRequested s"
    and "\<not> inventoryPending s'"
proof -
  have ni: "\<not> inv_due s" using assms(1) by (simp add: inv_due_def)
  have "queue_frame s s' \<and> inventoryRequested s' = inventoryRequested s \<and> \<not> inventoryPending s'"
  proof (cases "bin_due s")
    case True
    from drain_bin_effect[OF True assms(2)] assms(1) show ?thesis by simp
  next
    case False
    with ni assms show ?thesis by (simp add: drain_nothing queue_frame_def)
  qed
  then show "queue_frame s s'" and "inventoryRequested s' = inventoryRequested s"
    and "\<not> inventoryPending s'" by simp_all
qed

lemma runInventorySequence_effect:
  assumes "runInventorySequence s = Some (ok, s')"
  shows "queue_frame s s'" and "inventoryRequested s' = inventoryRequested s"
    and "ok \<Longrightarrow> \<not> inventoryPending s'"
    and "\<not> ok \<Longrightarrow> inventoryPending s' = inventoryPending s \<and> binRequested s' = binRequested s
                  \<and> requestedBin s' = requestedBin s \<and> lastSelectedBin s' = lastSelectedBin s"
proof -
  from assms obtain b1 s1 where im: "inventory_measure s = Some (b1, s1)"
    by (auto simp: runInventorySequence_measure split: option.splits)
  note e = inventory_measure_effect[OF im]
  have "queue_frame s s' \<and> inventoryRequested s' = inventoryRequested s
        \<and> (if ok then \<not> inventoryPending s'
            else inventoryPending s' = inventoryPending s \<and> binRequested s' = binRequested s
                  \<and> requestedBin s' = requestedBin s \<and> lastSelectedBin s' = lastSelectedBin s)"
  proof (cases b1)
    case False
    with assms im have "ok = False \<and> s' = s1" by (auto simp: runInventorySequence_measure)
    with e False show ?thesis by simp
  next
    case True
    with assms im have d: "tryRunQueuedCommands s1 = Some s'" and ok: "ok"
      by (auto simp: runInventorySequence_measure split: option.splits)
    from e(6)[OF True] have np: "\<not> inventoryPending s1" by simp
    from drain_idle_effect[OF np d] e(1,2) ok show ?thesis
      by (auto intro: queue_frame_trans)
  qed
  then show "queue_frame s s'" and "inventoryRequested s' = inventoryRequested s"
    and "ok \<Longrightarrow> \<not> inventoryPending s'"
    and "\<not> ok \<Longrightarrow> inventoryPending s' = inventoryPending s \<and> binRequested s' = binRequested s
                  \<and> requestedBin s' = requestedBin s \<and> lastSelectedBin s' = lastSelectedBin s"
    by (simp_all split: if_splits)
qed

lemma drain_effect:
  assumes "tryRunQueuedCommands s = Some s'"
  shows "queue_frame s s'"
    and "inv_due s \<Longrightarrow> \<not> inventoryRequested s'"
    and "bin_due s \<Longrightarrow> \<not> binRequested s' \<and> requestedBin s' = - 1"
proof -
  have "queue_frame s s' \<and> (inv_due s \<longrightarrow> \<not> inventoryRequested s')
        \<and> (bin_due s \<longrightarrow> \<not> binRequested s' \<and> requestedBin s' = - 1)"
  proof (cases "inv_due s")
    case True
    let ?s0 = "s\<lparr>inventoryRequested := False\<rparr>"
    from assms True obtain ok where r: "runInventorySequence ?s0 = Some (ok, s')"
      by (auto simp: drain_inventory split: option.splits)
    from True have nb: "\<not> bin_due s" by (simp add: inv_due_def bin_due_def)
    from runInventorySequence_effect(1,2)[OF r] nb True show ?thesis
      by (simp add: queue_frame_def)
  next
    case ni: False
    show ?thesis
    proof (cases "bin_due s")
      case True
      from drain_bin_effect[OF True assms] ni show ?thesis by simp
    next
      case False
      with ni assms show ?thesis by (simp add: drain_nothing queue_frame_def)
    qed
  qed
  then show "queue_frame s s'"
    and "inv_due s \<Longrightarrow> \<not> inventoryRequested s'"
    and "bin_due s \<Longrightarrow> \<not> binRequested s' \<and> requestedBin s' = - 1"
    by simp_all
qed

section \<open>Gate\<close>

text \<open>
  The states of the gate as the flags encode them. \<open>gate_input\<close> is the state in which
  \<^verbatim>\<open>updateBeamDebounce\<close> reaches its re-arm test.
\<close>

definition gate_BLOCKED :: "st \<Rightarrow> bool" where
  "gate_BLOCKED s = (gateLockout s \<and> gateOpenedAtMs s = 0)"

definition gate_REARMING :: "st \<Rightarrow> bool" where
  "gate_REARMING s = (gateLockout s \<and> \<not> beamStableBlocked s \<and> gateOpenedAtMs s \<noteq> 0)"

definition gate_input :: "st \<Rightarrow> st" where
  "gate_input s =
     (case beamBlockedRaw s of
        (raw, s1) \<Rightarrow> (case millis s1 of (now, s2) \<Rightarrow> beam_debounce raw now s2))"

lemma updateBeamDebounce_gate_input:
  "updateBeamDebounce s =
     (case gate_rearm (gate_input s) of
        (True, s3) \<Rightarrow> tryRunQueuedCommands s3
      | (False, s3) \<Rightarrow> Some s3)"
  by (simp add: updateBeamDebounce_def gate_input_def split: prod.splits)

lemma beam_debounce_pending: "inventoryPending (beam_debounce raw now s) = inventoryPending s"
  by (simp add: beam_debounce_def Let_def)

lemma beam_debounce_blocked:
  "beamStableBlocked (beam_debounce raw now s) \<Longrightarrow> \<not> beamStableBlocked s \<Longrightarrow>
     gate_BLOCKED (beam_debounce raw now s)"
  by (simp add: beam_debounce_def Let_def gate_BLOCKED_def split: if_splits)

lemma beam_debounce_stamp:
  "gateOpenedAtMs (beam_debounce raw now s) \<noteq> gateOpenedAtMs s \<Longrightarrow>
     beamStableBlocked (beam_debounce raw now s) \<noteq> beamStableBlocked s
     \<and> gateOpenedAtMs (beam_debounce raw now s)
         = (if beamStableBlocked (beam_debounce raw now s) then 0 else now)"
  by (simp add: beam_debounce_def Let_def split: if_splits)

lemma gate_input_pending: "inventoryPending (gate_input s) = inventoryPending s"
  by (simp add: gate_input_def beamBlockedRaw_def millis_def beam_debounce_pending)

lemma gate_input_stable: "beamStableBlocked (snd (millis (snd (beamBlockedRaw s)))) = beamStableBlocked s"
  by (simp add: beamBlockedRaw_def millis_def)

lemma gate_input_blocked:
  "beamStableBlocked (gate_input s) \<Longrightarrow> \<not> beamStableBlocked s \<Longrightarrow> gate_BLOCKED (gate_input s)"
  by (simp add: gate_input_def beamBlockedRaw_def millis_def beam_debounce_blocked)

lemma gate_rearm_fires:
  "gate_rearm s = (fired, s') \<Longrightarrow>
     fired = (gate_REARMING s \<and> BEAM_ARM_DELAY_MS \<le> fst (millis s) - gateOpenedAtMs s)
     \<and> inventoryPending s' = (inventoryPending s \<or> fired)
     \<and> (fired \<longrightarrow> \<not> gateLockout s' \<and> gateOpenedAtMs s' = 0)"
  by (auto simp: gate_rearm_def gate_REARMING_def millis_def split: if_splits)

lemma gate_rearm_blocked: "gate_BLOCKED s \<Longrightarrow> gate_rearm s = (False, s)"
  by (simp add: gate_rearm_def gate_BLOCKED_def)

lemma updateBeamDebounce_pending:
  assumes "updateBeamDebounce s = Some s'" "\<not> inventoryPending s" "inventoryPending s'"
  shows "gate_REARMING (gate_input s)
         \<and> BEAM_ARM_DELAY_MS \<le> fst (millis (gate_input s)) - gateOpenedAtMs (gate_input s)"
proof -
  obtain fired s3 where g: "gate_rearm (gate_input s) = (fired, s3)"
    by (cases "gate_rearm (gate_input s)")
  note f = gate_rearm_fires[OF g]
  show ?thesis
  proof (cases fired)
    case True
    with f show ?thesis by simp
  next
    case False
    with assms(1) g have "s' = s3" by (simp add: updateBeamDebounce_gate_input)
    with f False assms(2,3) show ?thesis by (simp add: gate_input_pending)
  qed
qed

lemma updateBeamDebounce_blocked:
  assumes "beamStableBlocked (gate_input s)" "\<not> beamStableBlocked s"
  shows "updateBeamDebounce s = Some (gate_input s) \<and> gate_BLOCKED (gate_input s)"
  using gate_input_blocked[OF assms] 
  by (simp add: updateBeamDebounce_gate_input gate_rearm_blocked)

lemma homeRoutine_pending: "homeRoutine s = Some (ok, s') \<Longrightarrow> inventoryPending s' = inventoryPending s"
  by (drule homeRoutine_effect(1)) (simp add: home_frame_def)

lemma queue_pending:
  "tryRunQueuedCommands s = Some s' \<Longrightarrow> inventoryPending s' \<Longrightarrow> inventoryPending s"
  "runInventorySequence s = Some (ok, s') \<Longrightarrow> inventoryPending s' \<Longrightarrow> inventoryPending s"
  by (auto dest: drain_effect(1) runInventorySequence_effect(1) simp: queue_frame_def)

text \<open>
  Claim C3. The flag \<^verbatim>\<open>inventoryPending\<close> is raised by the re-arm test of
  \<^verbatim>\<open>updateBeamDebounce\<close> alone: the test fires exactly in the re-arming state (locked,
  beam stably open, a nonzero opened-at stamp) when the clock reads at least 2000 ms
  more than the stamp, and it does nothing in the blocked state. The stamp is written
  only when the stable beam changes: the time of the change when the beam opens, zero
  when it closes. The debounce, homing, a move, an inventory sequence and a drain never
  raise the flag. A change of the stable beam to blocked sets the lockout and clears
  the stamp whatever the state was before; the call of \<^verbatim>\<open>updateBeamDebounce\<close> that
  sees it ends in that state. The flag \<^verbatim>\<open>inventoryPending\<close> itself is kept across
  such an event.
\<close>

theorem gate_pending_only_after_rearm:
  "(gate_rearm s = (fired, sa) \<longrightarrow>
      fired = (gate_REARMING s \<and> BEAM_ARM_DELAY_MS \<le> fst (millis s) - gateOpenedAtMs s)
      \<and> inventoryPending sa = (inventoryPending s \<or> fired))
   \<and> (gate_BLOCKED s \<longrightarrow> gate_rearm s = (False, s))
   \<and> (updateBeamDebounce s = Some sb \<and> \<not> inventoryPending s \<and> inventoryPending sb \<longrightarrow>
        gate_REARMING (gate_input s)
        \<and> BEAM_ARM_DELAY_MS \<le> fst (millis (gate_input s)) - gateOpenedAtMs (gate_input s))
   \<and> (gateOpenedAtMs (beam_debounce raw now s) \<noteq> gateOpenedAtMs s \<longrightarrow>
        beamStableBlocked (beam_debounce raw now s) \<noteq> beamStableBlocked s
        \<and> gateOpenedAtMs (beam_debounce raw now s)
            = (if beamStableBlocked (beam_debounce raw now s) then 0 else now))
   \<and> inventoryPending (beam_debounce raw now s) = inventoryPending s
   \<and> (homeRoutine s = Some (okh, sh) \<longrightarrow> inventoryPending sh = inventoryPending s)
   \<and> (moveToBin t s = (okm, sm) \<longrightarrow> inventoryPending sm = inventoryPending s)
   \<and> (runInventorySequence s = Some (oki, si) \<and> inventoryPending si \<longrightarrow> inventoryPending s)
   \<and> (tryRunQueuedCommands s = Some sd \<and> inventoryPending sd \<longrightarrow> inventoryPending s)
   \<and> (beamStableBlocked (beam_debounce raw now s) \<and> \<not> beamStableBlocked s \<longrightarrow>
        gate_BLOCKED (beam_debounce raw now s))
   \<and> (beamStableBlocked (gate_input s) \<and> \<not> beamStableBlocked s \<longrightarrow>
        updateBeamDebounce s = Some (gate_input s) \<and> gate_BLOCKED (gate_input s))"
proof -
  have a: "gate_rearm s = (fired, sa) \<longrightarrow>
      fired = (gate_REARMING s \<and> BEAM_ARM_DELAY_MS \<le> fst (millis s) - gateOpenedAtMs s)
      \<and> inventoryPending sa = (inventoryPending s \<or> fired)"
    using gate_rearm_fires[of s fired sa] by blast
  have b: "moveToBin t s = (okm, sm) \<longrightarrow> inventoryPending sm = inventoryPending s"
    using moveToBin_frame[of t s okm sm] by blast
  from a b show ?thesis
    using gate_rearm_blocked[of s] updateBeamDebounce_pending[of s sb]
      beam_debounce_stamp[of raw now s] beam_debounce_pending[of raw now s]
      homeRoutine_pending[of s okh sh] queue_pending(2)[of s oki si] queue_pending(1)[of s sd]
      beam_debounce_blocked[of raw now s] updateBeamDebounce_blocked[of s]
    by blast
qed

text \<open>
  The example carousel, locked with the beam open since the clock read 500: the sixth
  clock reading is 3000 and the call raises the flag. With the beam closing at that
  moment instead, the same call ends blocked.
\<close>

definition rearming_demo :: st where
  "rearming_demo = demo\<lparr>gateLockout := True, gateOpenedAtMs := 500, clockPos := 5\<rparr>"

definition closing_demo :: st where
  "closing_demo = rearming_demo\<lparr>beamIn := (\<lambda>k. True), beamLastRawBlocked := True\<rparr>"

lemma rearming_demo_input:
  "gate_input rearming_demo = rearming_demo\<lparr>beamPos := 1, clockPos := 6\<rparr>"
  by (simp add: gate_input_def rearming_demo_def demo_def beamBlockedRaw_def millis_def
        beam_debounce_def Let_def BEAM_DEBOUNCE_MS_def)


definition rearmed_demo :: st where
  "rearmed_demo = rearming_demo\<lparr>beamPos := 1, clockPos := 7, gateLockout := False,
     gateOpenedAtMs := 0, inventoryPending := True\<rparr>"

lemma updateBeamDebounce_rearming_demo: "updateBeamDebounce rearming_demo = Some rearmed_demo"
  unfolding updateBeamDebounce_gate_input rearming_demo_input
  by (simp add: gate_rearm_def millis_def rearming_demo_def demo_def BEAM_ARM_DELAY_MS_def
        rearmed_demo_def tryRunQueuedCommands.simps)

lemma closing_demo_input:
  "gate_input closing_demo = closing_demo\<lparr>beamPos := 1, clockPos := 6,
      beamStableBlocked := True, gateLockout := True, gateOpenedAtMs := 0\<rparr>"
  by (simp add: gate_input_def closing_demo_def rearming_demo_def demo_def beamBlockedRaw_def
        millis_def beam_debounce_def Let_def BEAM_DEBOUNCE_MS_def)

theorem gate_pending_only_after_rearm_witness:
  "updateBeamDebounce rearming_demo = Some rearmed_demo
   \<and> \<not> inventoryPending rearming_demo \<and> inventoryPending rearmed_demo
   \<and> gate_REARMING (gate_input rearming_demo)
   \<and> BEAM_ARM_DELAY_MS
        \<le> fst (millis (gate_input rearming_demo)) - gateOpenedAtMs (gate_input rearming_demo)
   \<and> beamStableBlocked (gate_input closing_demo) \<and> \<not> beamStableBlocked closing_demo
   \<and> gate_REARMING closing_demo
   \<and> updateBeamDebounce closing_demo = Some (gate_input closing_demo)
   \<and> gate_BLOCKED (gate_input closing_demo)"
proof -
  have a: "\<not> inventoryPending rearming_demo \<and> inventoryPending rearmed_demo"
    by (simp add: rearming_demo_def rearmed_demo_def demo_def)
  have b: "beamStableBlocked (gate_input closing_demo) \<and> \<not> beamStableBlocked closing_demo
           \<and> gate_REARMING closing_demo"
    by (simp add: closing_demo_input)
       (simp add: closing_demo_def rearming_demo_def demo_def gate_REARMING_def)
  note c = gate_pending_only_after_rearm[where s = rearming_demo and sb = rearmed_demo,
              THEN conjunct2, THEN conjunct2, THEN conjunct1, rule_format]
  note d = gate_pending_only_after_rearm[where s = closing_demo,
              THEN conjunct2, THEN conjunct2, THEN conjunct2, THEN conjunct2, THEN conjunct2,
              THEN conjunct2, THEN conjunct2, THEN conjunct2, THEN conjunct2, THEN conjunct2,
              rule_format]
  from a updateBeamDebounce_rearming_demo have "gate_REARMING (gate_input rearming_demo)
     \<and> BEAM_ARM_DELAY_MS
        \<le> fst (millis (gate_input rearming_demo)) - gateOpenedAtMs (gate_input rearming_demo)"
    by (intro c) simp
  moreover from b have "updateBeamDebounce closing_demo = Some (gate_input closing_demo)
     \<and> gate_BLOCKED (gate_input closing_demo)"
    by (intro d) simp
  ultimately show ?thesis using a b updateBeamDebounce_rearming_demo by simp
qed

section \<open>Queued requests\<close>

lemma equalsIgnoreCase_single:
  "equalsIgnoreCase [t0, t1, t2, t3] [c] = False"
  by simp

lemma parseBinCommand_Some:
  assumes "parseBinCommand cmd = Some k"
  shows "cmd \<noteq> []" "\<not> equalsIgnoreCase cmd ''e''" "\<not> equalsIgnoreCase cmd ''h''"
    "\<not> equalsIgnoreCase cmd ''i''" "0 \<le> k" "k \<le> 3"
proof -
  from assms obtain t0 t1 t2 t3 where c: "cmd = [t0, t1, t2, t3]"
    by (auto simp: parseBinCommand_def split: list.splits)
  from c show "cmd \<noteq> []" "\<not> equalsIgnoreCase cmd ''e''" "\<not> equalsIgnoreCase cmd ''h''"
    "\<not> equalsIgnoreCase cmd ''i''" by simp_all
  from assms c show "0 \<le> k" "k \<le> 3"
    by (auto simp: parseBinCommand_def split: if_splits)
qed

lemma loop_command_queue_bin:
  assumes "parseBinCommand cmd = Some k" "gateLockout s \<or> inventoryPending s"
  shows "loop_command cmd s = Some (resetCmdBuf (s\<lparr>binRequested := True, requestedBin := k\<rparr>))"
  using parseBinCommand_Some(1-4)[OF assms(1)] assms
  by (auto simp: loop_command_def)

lemma loop_command_queue_inventory:
  assumes "equalsIgnoreCase cmd ''i''" "\<not> inventoryPending s \<or> beamStableBlocked s \<or> gateLockout s"
  shows "loop_command cmd s = Some (resetCmdBuf (s\<lparr>inventoryRequested := True\<rparr>))"
proof -
  from assms(1) obtain c where c: "cmd = [c]" "to_lower c = to_lower CHR ''i''"
  proof (cases cmd)
    case Nil
    with assms(1) show ?thesis by simp
  next
    case (Cons a as)
    with assms(1) have "as = []" by (cases as) simp_all
    with Cons assms(1) that show ?thesis by simp
  qed
  have l: "to_lower CHR ''i'' \<noteq> to_lower CHR ''e''" "to_lower CHR ''i'' \<noteq> to_lower CHR ''h''"
    by (simp_all add: to_lower_def)
  with c assms show ?thesis by (auto simp: loop_command_def Let_def)
qed

lemma updateBeamDebounce_requests:
  assumes "updateBeamDebounce s = Some s'"
  shows "(inventoryRequested s' \<longrightarrow> inventoryRequested s) \<and> (binRequested s' \<longrightarrow> binRequested s)"
proof -
  obtain fired s3 where g: "gate_rearm (gate_input s) = (fired, s3)"
    by (cases "gate_rearm (gate_input s)")
  have i: "inventoryRequested (gate_input s) = inventoryRequested s
           \<and> binRequested (gate_input s) = binRequested s"
    by (simp add: gate_input_def beamBlockedRaw_def millis_def beam_debounce_def Let_def)
  from g have r: "inventoryRequested s3 = inventoryRequested (gate_input s)
                  \<and> binRequested s3 = binRequested (gate_input s)"
    by (auto simp: gate_rearm_def millis_def split: if_splits)
  show ?thesis
  proof (cases fired)
    case True
    with assms g have "tryRunQueuedCommands s3 = Some s'"
      by (simp add: updateBeamDebounce_gate_input)
    from drain_effect(1)[OF this] i r show ?thesis by (simp add: queue_frame_def)
  next
    case False
    with assms g have "s' = s3" by (simp add: updateBeamDebounce_gate_input)
    with i r show ?thesis by simp
  qed
qed

lemma drain_twice:
  assumes "tryRunQueuedCommands s = Some s'"
  shows "inv_due s \<Longrightarrow> \<not> inv_due s'" "bin_due s \<Longrightarrow> \<not> bin_due s'"
  using drain_effect(2,3)[OF assms] by (auto simp: inv_due_def bin_due_def)

text \<open>
  Claim C7. The queue holds one flag for an inventory request and one flag with one
  target for a bin request; a bin command that is queued replaces the target, whatever
  was queued before. A drain that runs a due request returns with the request's flag
  false and the request no longer due (for a bin request also the target reset to -1);
  a drain with no request due changes nothing. Nothing but a command sets a flag: a
  drain, an inventory sequence, a move, homing and the gate's update leave a cleared
  flag cleared.
\<close>

theorem queue_drain_once:
  "(parseBinCommand cmd = Some k \<and> (gateLockout s \<or> inventoryPending s) \<longrightarrow>
      loop_command cmd s = Some (resetCmdBuf (s\<lparr>binRequested := True, requestedBin := k\<rparr>)))
   \<and> (equalsIgnoreCase cmd ''i''
        \<and> (\<not> inventoryPending s \<or> beamStableBlocked s \<or> gateLockout s) \<longrightarrow>
      loop_command cmd s = Some (resetCmdBuf (s\<lparr>inventoryRequested := True\<rparr>)))
   \<and> (tryRunQueuedCommands s = Some sd \<longrightarrow>
        (inv_due s \<longrightarrow> \<not> inventoryRequested sd \<and> \<not> inv_due sd)
        \<and> (bin_due s \<longrightarrow> \<not> binRequested sd \<and> requestedBin sd = - 1 \<and> \<not> bin_due sd)
        \<and> (inventoryRequested sd \<longrightarrow> inventoryRequested s)
        \<and> (binRequested sd \<longrightarrow> binRequested s))
   \<and> (\<not> inv_due s \<and> \<not> bin_due s \<longrightarrow> tryRunQueuedCommands s = Some s)
   \<and> (runInventorySequence s = Some (oki, si) \<longrightarrow>
        (inventoryRequested si \<longrightarrow> inventoryRequested s)
        \<and> (binRequested si \<longrightarrow> binRequested s))
   \<and> (moveToBin t s = (okm, sm) \<longrightarrow>
        inventoryRequested sm = inventoryRequested s \<and> binRequested sm = binRequested s
        \<and> requestedBin sm = requestedBin s)
   \<and> (homeRoutine s = Some (okh, sh) \<longrightarrow> \<not> inventoryRequested sh \<and> \<not> binRequested sh)
   \<and> (updateBeamDebounce s = Some sb \<longrightarrow>
        (inventoryRequested sb \<longrightarrow> inventoryRequested s)
        \<and> (binRequested sb \<longrightarrow> binRequested s))"
proof -
  have a: "parseBinCommand cmd = Some k \<and> (gateLockout s \<or> inventoryPending s) \<longrightarrow>
      loop_command cmd s = Some (resetCmdBuf (s\<lparr>binRequested := True, requestedBin := k\<rparr>))"
    using loop_command_queue_bin[of cmd k s] by blast
  have b: "equalsIgnoreCase cmd ''i''
        \<and> (\<not> inventoryPending s \<or> beamStableBlocked s \<or> gateLockout s) \<longrightarrow>
      loop_command cmd s = Some (resetCmdBuf (s\<lparr>inventoryRequested := True\<rparr>))"
    using loop_command_queue_inventory[of cmd s] by blast
  have c: "tryRunQueuedCommands s = Some sd \<longrightarrow>
        (inv_due s \<longrightarrow> \<not> inventoryRequested sd \<and> \<not> inv_due sd)
        \<and> (bin_due s \<longrightarrow> \<not> binRequested sd \<and> requestedBin sd = - 1 \<and> \<not> bin_due sd)
        \<and> (inventoryRequested sd \<longrightarrow> inventoryRequested s)
        \<and> (binRequested sd \<longrightarrow> binRequested s)"
    using drain_effect[of s sd] drain_twice[of s sd] by (auto simp: queue_frame_def)
  have d: "\<not> inv_due s \<and> \<not> bin_due s \<longrightarrow> tryRunQueuedCommands s = Some s"
    by (simp add: drain_nothing)
  have e: "runInventorySequence s = Some (oki, si) \<longrightarrow>
        (inventoryRequested si \<longrightarrow> inventoryRequested s)
        \<and> (binRequested si \<longrightarrow> binRequested s)"
    using runInventorySequence_effect(1)[of s oki si] by (auto simp: queue_frame_def)
  have f: "moveToBin t s = (okm, sm) \<longrightarrow>
        inventoryRequested sm = inventoryRequested s \<and> binRequested sm = binRequested s
        \<and> requestedBin sm = requestedBin s"
    using moveToBin_frame[of t s okm sm] by blast
  have g: "homeRoutine s = Some (okh, sh) \<longrightarrow> \<not> inventoryRequested sh \<and> \<not> binRequested sh"
    using homeRoutine_effect(2,3)[of s okh sh] by blast
  have h: "updateBeamDebounce s = Some sb \<longrightarrow>
        (inventoryRequested sb \<longrightarrow> inventoryRequested s)
        \<and> (binRequested sb \<longrightarrow> binRequested s)"
    using updateBeamDebounce_requests[of s sb] by blast
  from a b c d e f g h show ?thesis by (intro conjI)
qed

text \<open>
  Claim C10. A drain clears the flag of the request it runs before it calls the
  operation: a due inventory request runs as \<^verbatim>\<open>runInventorySequence\<close> on the state with
  \<^verbatim>\<open>inventoryRequested\<close> false, a due bin request as \<^verbatim>\<open>moveToBin\<close> on the state with
  \<^verbatim>\<open>binRequested\<close> false and \<^verbatim>\<open>requestedBin\<close> -1. When the operation fails the
  drain returns the operation's final state: the flag is still false, the request is
  not due again, a second drain changes nothing, and \<^verbatim>\<open>lastSelectedBin\<close> is what it
  was. \<^verbatim>\<open>lastSelectedBin\<close> takes the queued target exactly when the move succeeds.
\<close>

theorem queued_failure_discarded:
  "(inv_due s \<and> runInventorySequence (s\<lparr>inventoryRequested := False\<rparr>) = Some (False, sa) \<longrightarrow>
      tryRunQueuedCommands s = Some sa \<and> \<not> inventoryRequested sa \<and> \<not> inv_due sa
      \<and> lastSelectedBin sa = lastSelectedBin s \<and> tryRunQueuedCommands sa = Some sa)
   \<and> (bin_due s
        \<and> moveToBin (requestedBin s) (s\<lparr>binRequested := False, requestedBin := - 1\<rparr>) = (ok, sb) \<longrightarrow>
      tryRunQueuedCommands s = Some (if ok then sb\<lparr>lastSelectedBin := requestedBin s\<rparr> else sb)
      \<and> \<not> binRequested sb \<and> requestedBin sb = - 1 \<and> lastSelectedBin sb = lastSelectedBin s
      \<and> (\<not> ok \<longrightarrow> \<not> bin_due sb \<and> tryRunQueuedCommands sb = Some sb))"
proof -
  have a: "tryRunQueuedCommands s = Some sa \<and> \<not> inventoryRequested sa \<and> \<not> inv_due sa
      \<and> lastSelectedBin sa = lastSelectedBin s \<and> tryRunQueuedCommands sa = Some sa"
    if d: "inv_due s" and r: "runInventorySequence (s\<lparr>inventoryRequested := False\<rparr>) = Some (False, sa)"
  proof -
    note e = runInventorySequence_effect[OF r]
    from e(4) d have p: "inventoryPending sa" and l: "lastSelectedBin sa = lastSelectedBin s"
      by (simp_all add: inv_due_def)
    from e(2) have q: "\<not> inventoryRequested sa" by simp
    from p q have n: "\<not> inv_due sa" "\<not> bin_due sa" by (simp_all add: inv_due_def bin_due_def)
    from d r have "tryRunQueuedCommands s = Some sa" by (simp add: drain_inventory)
    with q n l show ?thesis by (simp add: drain_nothing)
  qed
  have b: "tryRunQueuedCommands s = Some (if ok then sb\<lparr>lastSelectedBin := requestedBin s\<rparr> else sb)
      \<and> \<not> binRequested sb \<and> requestedBin sb = - 1 \<and> lastSelectedBin sb = lastSelectedBin s
      \<and> (\<not> ok \<longrightarrow> \<not> bin_due sb \<and> tryRunQueuedCommands sb = Some sb)"
    if d: "bin_due s"
      and m: "moveToBin (requestedBin s) (s\<lparr>binRequested := False, requestedBin := - 1\<rparr>) = (ok, sb)"
  proof -
    from moveToBin_frame[OF m]
    have f: "\<not> binRequested sb" "requestedBin sb = - 1" "lastSelectedBin sb = lastSelectedBin s"
      "inventoryPending sb = inventoryPending s" by simp_all
    from f d have n: "\<not> inv_due sb" "\<not> bin_due sb" by (simp_all add: inv_due_def bin_due_def)
    from d m have "tryRunQueuedCommands s = Some (if ok then sb\<lparr>lastSelectedBin := requestedBin s\<rparr> else sb)"
      by (simp add: drain_bin split: bool.splits)
    with f n show ?thesis by (simp add: drain_nothing)
  qed
  from a b show ?thesis by blast
qed

section \<open>Robust distance\<close>

lemma trim_sum_slice:
  "0 \<le> i \<Longrightarrow> i \<le> hi \<Longrightarrow> nat hi \<le> length xs \<Longrightarrow>
     trim_sum xs i hi acc used
       = (acc + sum_list (take (nat (hi - i)) (drop (nat i) xs)), used + (hi - i))"
proof (induction xs i hi acc used rule: trim_sum.induct)
  case (1 meds i hi acc used)
  show ?case
  proof (cases "i < hi")
    case False
    with 1(3) have "i = hi" by simp
    then show ?thesis by (subst trim_sum.simps) simp
  next
    case True
    have lt: "nat i < length meds" using True 1(2,4) by linarith
    have n: "nat (hi - i) = Suc (nat (hi - (i + 1)))" using True by linarith
    have d: "drop (nat i) meds = meds ! nat i # drop (nat (i + 1)) meds"
      using Cons_nth_drop_Suc[OF lt] 1(2) by (simp add: nat_add_distrib)
    have "trim_sum meds i hi acc used = trim_sum meds (i + 1) hi (acc + meds ! nat i) (used + 1)"
      using True by (subst trim_sum.simps) simp
    also have "\<dots> = (acc + meds ! nat i + sum_list (take (nat (hi - (i + 1))) (drop (nat (i + 1)) meds)),
                     used + 1 + (hi - (i + 1)))"
      using 1(1)[OF True] True 1(2,4) by simp
    also have "\<dots> = (acc + sum_list (take (nat (hi - i)) (drop (nat i) meds)), used + (hi - i))"
      by (simp only: n d take_Suc_Cons sum_list.Cons) simp
    finally show ?thesis .
  qed
qed

text \<open>
  The trim count. The constant \<^verbatim>\<open>0.20f\<close> is 1/335544320 above one fifth; a number
  of medians below 33554432 is too small for the excess to reach the next integer.
\<close>

lemma trim_count:
  assumes "0 \<le> n" "n < 33554432"
  shows "to_long (of_int n * US_TRIM_FRACTION + 1 / 2) = (2 * n + 5) div 10"
proof -
  let ?x = "of_int n * US_TRIM_FRACTION + 1 / 2 :: rat"
  define k where "k = (2 * n + 5) div 10"
  define r where "r = (2 * n + 5) mod 10"
  have x: "?x = of_int (2 * n + 5) / 10 + of_int n / 335544320"
    by (simp add: US_TRIM_FRACTION_def field_simps)
  have s: "2 * n + 5 = 10 * k + r" by (simp add: k_def r_def)
  have r: "0 \<le> r" "r \<le> 9" by (simp_all add: r_def)
  have f: "(of_int (2 * n + 5) :: rat) = 10 * of_int k + of_int r"
    by (simp only: s of_int_add of_int_mult of_int_numeral)
  have x2: "?x = of_int k + of_int r / 10 + of_int n / 335544320"
    by (simp only: x f) (simp add: field_simps)
  have e: "(of_int n :: rat) / 335544320 < 1 / 10" using assms(2) by simp
  have e0: "0 \<le> (of_int n :: rat) / 335544320" using assms(1) by simp
  have r9: "(of_int r :: rat) / 10 \<le> 9 / 10" using r(2) by simp
  have r0: "0 \<le> (of_int r :: rat) / 10" using r(1) by simp
  have lo: "of_int k \<le> ?x" using x2 e0 r0 by linarith
  have hi: "?x < of_int k + 1" using x2 e r9 by linarith
  have "\<lfloor>?x\<rfloor> = k" using lo hi by (rule floor_unique)
  moreover have "0 \<le> ?x" using assms(1) by (simp add: US_TRIM_FRACTION_def)
  ultimately show ?thesis by (simp add: to_long_def k_def)
qed

lemma round_fifth: "round (of_int n * (2 / 10) :: rat) = (2 * n + 5) div 10"
proof -
  have "(of_int n * (2 / 10) + 1 / 2 :: rat) = of_int (2 * n + 5) / of_int 10"
    by (simp add: field_simps)
  then show ?thesis by (simp only: round_def floor_divide_of_int_eq)
qed

text \<open>
  Modelled from the spec: the symmetric trimmed mean, \<open>k\<close> elements dropped at each end
  of the sorted list, and the trim count \<open>round (count * 0.20)\<close>.
\<close>

definition trimmed_mean :: "nat \<Rightarrow> rat list \<Rightarrow> rat" where
  "trimmed_mean k xs =
     sum_list (take (length xs - 2 * k) (drop k (sort xs))) / of_nat (length xs - 2 * k)"

definition trim_round :: "nat \<Rightarrow> nat" where
  "trim_round n = nat (round (of_nat n * (2 / 10) :: rat))"

lemma trim_round_div: "trim_round n = (2 * n + 5) div 10"
  using round_fifth[of "int n"] by (simp add: trim_round_def nat_div_distrib nat_add_distrib nat_mult_distrib)

lemma robust_of_medians_few: "length meds < 5 \<Longrightarrow> robust_of_medians meds = None"
  by (simp add: robust_of_medians_def)

lemma robust_of_medians_mean:
  assumes "5 \<le> length meds" "length meds < 33554432"
  shows "robust_of_medians meds = Some (trimmed_mean (trim_round (length meds)) meds)"
    and "2 * trim_round (length meds) < length meds"
proof -
  let ?n = "int (length meds)"
  let ?k = "(2 * ?n + 5) div 10"
  have t: "to_long (of_int ?n * US_TRIM_FRACTION + 1 / 2) = ?k"
    using assms(2) by (intro trim_count) simp_all
  have k0: "0 \<le> ?k" by simp
  have k2: "?k * 2 < ?n" using assms(1) by linarith
  have kn: "nat ?k = trim_round (length meds)"
    by (simp add: trim_round_div nat_div_distrib nat_add_distrib nat_mult_distrib)
  from k2 kn show c: "2 * trim_round (length meds) < length meds" by linarith
  have le: "?k \<le> ?n - ?k" using k2 by linarith
  have len: "nat (?n - ?k) \<le> length (sort meds)" using k0 by simp
  have u: "nat (?n - ?k - ?k) = length meds - 2 * trim_round (length meds)"
    using kn k0 by linarith
  have used: "0 < ?n - ?k - ?k" using k2 by linarith
  have ts: "trim_sum (sort meds) ?k (?n - ?k) 0 0
      = (sum_list (take (length meds - 2 * trim_round (length meds))
                        (drop (trim_round (length meds)) (sort meds))), ?n - ?k - ?k)"
    using trim_sum_slice[OF k0 le len, of 0 0] by (simp only: u kn) simp
  have oi: "(of_int (?n - ?k - ?k) :: rat) = of_nat (length meds - 2 * trim_round (length meds))"
  proof -
    have "?n - ?k - ?k = int (length meds - 2 * trim_round (length meds))"
      using u used by linarith
    then show ?thesis by (simp only: of_int_of_nat_eq)
  qed
  have n5: "\<not> ?n < 5" using assms(1) by simp
  have nk: "\<not> ?k * 2 \<ge> ?n" using k2 by simp
  have nu: "\<not> ?n - ?k - ?k \<le> 0" using used by simp
  show "robust_of_medians meds = Some (trimmed_mean (trim_round (length meds)) meds)"
    unfolding robust_of_medians_def Let_def t
    by (simp only: n5 nk if_False ts prod.case nu oi trimmed_mean_def)
qed

lemma robust_window_length:
  assumes a: "robust_window t0 meds s = Some y"
  shows "length meds < MAX_BLOCKS \<longrightarrow> (\<forall>ms. fst y = Some ms \<longrightarrow> length ms \<le> MAX_BLOCKS)"
proof (rule robust_window.raw_induct[where
        P = "\<lambda>t0 meds s y. length meds < MAX_BLOCKS \<longrightarrow> (\<forall>ms. fst y = Some ms \<longrightarrow> length ms \<le> MAX_BLOCKS)",
        OF _ a], goal_cases)
  case (1 win t0 meds s y)
  show ?case
  proof (intro impI allI)
    fix ms
    assume l: "length meds < MAX_BLOCKS" and f: "fst y = Some ms"
    obtain now s1 where m: "millis s = (now, s1)" by (cases "millis s")
    show "length ms \<le> MAX_BLOCKS"
    proof (cases "now - t0 < US_WINDOW_MS")
      case False
      with 1(2) m f l show ?thesis by auto
    next
      case True
      let ?s2 = "pollEstopDuringMotion s1"
      show ?thesis
      proof (cases "estop ?s2")
        case True
        with 1(2) m \<open>now - t0 < US_WINDOW_MS\<close> f show ?thesis by (auto simp: Let_def)
      next
        case False
        with 1(2) m True obtain mm s3 where b: "medianOfBlockCm ?s2 = Some (mm, s3)"
          by (auto simp: Let_def split: option.splits)
        let ?meds' = "case mm of None \<Rightarrow> meds | Some x \<Rightarrow> meds @ [x]"
        have l': "length ?meds' \<le> Suc (length meds)" by (cases mm) simp_all
        show ?thesis
        proof (cases "MAX_BLOCKS \<le> length ?meds'")
          case full: True
          with 1(2) m True False b have "y = (Some ?meds', s3)" by (simp add: Let_def)
          with f l l' show ?thesis by auto
        next
          case cont: False
          with 1(2) m True False b have "win t0 ?meds' s3 = Some y" by (simp add: Let_def)
          from 1(1)[OF this] cont f show ?thesis by simp
        qed
      qed
    qed
  qed
qed

lemma robust_window_stopped:
  assumes a: "robust_window t0 meds s = Some y"
  shows "fst y = None \<longrightarrow> estop (snd y)"
proof (rule robust_window.raw_induct[where P = "\<lambda>t0 meds s y. fst y = None \<longrightarrow> estop (snd y)",
        OF _ a], goal_cases)
  case (1 win t0 meds s y)
  obtain now s1 where m: "millis s = (now, s1)" by (cases "millis s")
  show ?case
  proof (cases "now - t0 < US_WINDOW_MS")
    case False
    with 1(2) m show ?thesis by auto
  next
    case True
    let ?s2 = "pollEstopDuringMotion s1"
    show ?thesis
    proof (cases "estop ?s2")
      case True
      with 1(2) m \<open>now - t0 < US_WINDOW_MS\<close> show ?thesis by (auto simp: Let_def)
    next
      case False
      with 1(2) m True obtain mm s3 where b: "medianOfBlockCm ?s2 = Some (mm, s3)"
        by (auto simp: Let_def split: option.splits)
      let ?meds' = "case mm of None \<Rightarrow> meds | Some x \<Rightarrow> meds @ [x]"
      show ?thesis
      proof (cases "MAX_BLOCKS \<le> length ?meds'")
        case full: True
        with 1(2) m True False b have "y = (Some ?meds', s3)" by (simp add: Let_def)
        then show ?thesis by simp
      next
        case cont: False
        with 1(2) m True False b have "win t0 ?meds' s3 = Some y" by (simp add: Let_def)
        from 1(1)[OF this] show ?thesis .
      qed
    qed
  qed
qed


text \<open>
  The call returns when no byte arrives on the serial line and every ping has an echo:
  each block then fills with seven pings, and the window closes with the clock or with
  the last of the \<open>MAX_BLOCKS\<close> medians.
\<close>

definition echo_valid :: "st \<Rightarrow> bool" where
  "echo_valid s = (\<forall>k. echoIn s k \<noteq> 0)"

lemma medianOfBlock_fill_returns:
  "quiet s \<Longrightarrow> echo_valid s \<Longrightarrow> length xs + n = US_BLOCK_SIZE \<Longrightarrow>
     \<exists>ys s'. medianOfBlock_fill xs s = Some (Some ys, s') \<and> quiet s' \<and> echo_valid s'"
proof (induction n arbitrary: xs s)
  case 0
  then show ?case by (subst medianOfBlock_fill.simps) simp
next
  case (Suc n)
  let ?s1 = "advance 0 1 0 s"
  let ?d = "(of_nat (echoIn s (echoPos s)) * US_CM_PER_US) / 2"
  let ?s2 = "?s1\<lparr>echoPos := echoPos s + 1\<rparr>"
  have p: "pollEstopDuringMotion s = ?s1" by (rule pollEstop_quiet[OF Suc.prems(1)])
  have e: "\<not> estop ?s1" using Suc.prems(1) by (simp add: quiet_def advance_def)
  have v: "echoIn s (echoPos s) \<noteq> 0" using Suc.prems(2) by (simp add: echo_valid_def)
  have g: "pingDistanceCm ?s1 = (Some ?d, ?s2)"
    using v by (simp add: pingDistanceCm_def pulseIn_def advance_def)
  have q: "quiet ?s2" "echo_valid ?s2"
    using Suc.prems(1,2) by (simp_all add: quiet_def echo_valid_def advance_def)
  have l: "length (xs @ [?d]) + n = US_BLOCK_SIZE" using Suc.prems(3) by simp
  have lt: "length xs < US_BLOCK_SIZE" using Suc.prems(3) by simp
  have "medianOfBlock_fill xs s = medianOfBlock_fill (xs @ [?d]) ?s2"
    by (subst medianOfBlock_fill.simps)
       (simp only: lt if_True p Let_def e if_False g prod.case option.case)
  with Suc.IH[OF q l] show ?case by simp
qed

lemma medianOfBlockCm_returns:
  assumes "quiet s" "echo_valid s"
  shows "\<exists>m s'. medianOfBlockCm s = Some (Some m, s') \<and> quiet s' \<and> echo_valid s'"
proof -
  from medianOfBlock_fill_returns[OF assms, of "[]" US_BLOCK_SIZE]
  obtain ys s' where "medianOfBlock_fill [] s = Some (Some ys, s')" "quiet s'" "echo_valid s'"
    by auto
  then show ?thesis by (simp add: medianOfBlockCm_def)
qed

lemma robust_window_returns:
  "quiet s \<Longrightarrow> echo_valid s \<Longrightarrow> length meds + n = MAX_BLOCKS \<Longrightarrow> 0 < n \<Longrightarrow>
     \<exists>r s'. robust_window t0 meds s = Some (r, s')"
proof (induction n arbitrary: meds s)
  case 0
  then show ?case by simp
next
  case (Suc n)
  let ?now = "clockIn s (clockPos s)"
  let ?s1 = "s\<lparr>clockPos := clockPos s + 1\<rparr>"
  have m: "millis s = (?now, ?s1)" by (simp add: millis_def)
  show ?case
  proof (cases "?now - t0 < US_WINDOW_MS")
    case False
    have "robust_window t0 meds s = Some (Some meds, ?s1)"
      by (subst robust_window.simps) (simp only: m prod.case False if_False)
    then show ?thesis by simp
  next
    case True
    have q1: "quiet ?s1" "echo_valid ?s1"
      using Suc.prems(1,2) by (simp_all add: quiet_def echo_valid_def)
    let ?s2 = "advance 0 1 0 ?s1"
    have p: "pollEstopDuringMotion ?s1 = ?s2" by (rule pollEstop_quiet[OF q1(1)])
    have q2: "quiet ?s2" "echo_valid ?s2"
      using q1 by (simp_all add: quiet_def echo_valid_def advance_def)
    have e: "\<not> estop ?s2" using q2(1) by (simp add: quiet_def)
    from medianOfBlockCm_returns[OF q2] obtain md s3 where
      b: "medianOfBlockCm ?s2 = Some (Some md, s3)" and q3: "quiet s3" "echo_valid s3" by auto
    show ?thesis
    proof (cases "MAX_BLOCKS \<le> length (meds @ [md])")
      case full: True
      have "robust_window t0 meds s = Some (Some (meds @ [md]), s3)"
        by (subst robust_window.simps)
           (simp only: m prod.case True if_True Let_def p e if_False b option.case full)
      then show ?thesis by simp
    next
      case cont: False
      have l: "length (meds @ [md]) + n = MAX_BLOCKS" using Suc.prems(3) by simp
      have n: "0 < n" using cont l by simp
      have "robust_window t0 meds s = robust_window t0 (meds @ [md]) s3"
        by (subst robust_window.simps)
           (simp only: m prod.case True if_True Let_def p e if_False b option.case cont)
      with Suc.IH[OF q3 l n] show ?thesis by simp
    qed
  qed
qed

lemma readRobustDistance4sCm_returns:
  assumes "quiet s" "echo_valid s"
  shows "\<exists>r s'. readRobustDistance4sCm s = Some (r, s')"
proof -
  let ?s1 = "s\<lparr>clockPos := clockPos s + 1\<rparr>"
  have m: "millis s = (clockIn s (clockPos s), ?s1)" by (simp add: millis_def)
  have q1: "quiet ?s1" "echo_valid ?s1"
    using assms by (simp_all add: quiet_def echo_valid_def)
  have mb: "length ([]::rat list) + MAX_BLOCKS = MAX_BLOCKS" "0 < MAX_BLOCKS"
    by (simp_all add: MAX_BLOCKS_def)
  from robust_window_returns[OF q1 mb, of "clockIn s (clockPos s)"]
  obtain r s' where "robust_window (clockIn s (clockPos s)) [] ?s1 = Some (r, s')" by auto
  then show ?thesis by (cases r) (simp_all add: readRobustDistance4sCm_def m)
qed

lemma readRobustDistance4sCm_result:
  "readRobustDistance4sCm s = Some (r, s') \<longrightarrow>
     (\<exists>w. robust_window (fst (millis s)) [] (snd (millis s)) = Some (w, s')
        \<and> (case w of
             None \<Rightarrow> r = None \<and> estop s'
           | Some meds \<Rightarrow>
               length meds \<le> MAX_BLOCKS
               \<and> (length meds < 5 \<longrightarrow> r = None)
               \<and> (5 \<le> length meds \<longrightarrow>
                    r = Some (trimmed_mean (trim_round (length meds)) meds)
                    \<and> 2 * trim_round (length meds) < length meds)))"
proof
  assume a: "readRobustDistance4sCm s = Some (r, s')"
  obtain t0 s1 where m: "millis s = (t0, s1)" by (cases "millis s")
  from a m obtain w where w: "robust_window t0 [] s1 = Some (w, s')"
    and r: "r = (case w of None \<Rightarrow> None | Some meds \<Rightarrow> robust_of_medians meds)"
    by (auto simp: readRobustDistance4sCm_def split: option.splits)
  have "case w of
             None \<Rightarrow> r = None \<and> estop s'
           | Some meds \<Rightarrow>
               length meds \<le> MAX_BLOCKS
               \<and> (length meds < 5 \<longrightarrow> r = None)
               \<and> (5 \<le> length meds \<longrightarrow>
                    r = Some (trimmed_mean (trim_round (length meds)) meds)
                    \<and> 2 * trim_round (length meds) < length meds)"
  proof (cases w)
    case None
    from robust_window_stopped[OF w] None r show ?thesis by simp
  next
    case (Some meds)
    have mb: "MAX_BLOCKS = 32"
      by (simp add: MAX_BLOCKS_def US_WINDOW_MS_def US_BLOCK_SIZE_def US_PING_PERIOD_MS_def)
    from robust_window_length[OF w] Some mb have l: "length meds \<le> MAX_BLOCKS" by simp
    with mb have "length meds < 33554432" by simp
    with Some r l robust_of_medians_few[of meds] robust_of_medians_mean[of meds]
    show ?thesis by auto
  qed
  with w m show "\<exists>w. robust_window (fst (millis s)) [] (snd (millis s)) = Some (w, s')
        \<and> (case w of
             None \<Rightarrow> r = None \<and> estop s'
           | Some meds \<Rightarrow>
               length meds \<le> MAX_BLOCKS
               \<and> (length meds < 5 \<longrightarrow> r = None)
               \<and> (5 \<le> length meds \<longrightarrow>
                    r = Some (trimmed_mean (trim_round (length meds)) meds)
                    \<and> 2 * trim_round (length meds) < length meds))"
    by auto
qed

text \<open>
  What a call returns, in exact arithmetic. A call that returns has either been stopped
  by the E-stop inside the window, and then its result is undefined, or it has collected
  medians up to the end of the window. With fewer than five medians the result is
  undefined. From five medians on it is the mean of the sorted medians without the
  \<open>round (count * 0.2)\<close> smallest and the same number of largest ones; twice that
  number is less than the count, so at least one median is averaged and the clamp of the
  source never has to act. The call does return when the serial line is silent and every
  ping has an echo. The source rounds the sum to \<^verbatim>\<open>double\<close> and the mean to
  \<^verbatim>\<open>float\<close>; its result differs from the value given here by that rounding.
\<close>

lemma readRobustDistance4sCm_trimmed_mean:
  "(readRobustDistance4sCm s = Some (r, s') \<longrightarrow>
     (\<exists>w. robust_window (fst (millis s)) [] (snd (millis s)) = Some (w, s')
        \<and> (case w of
             None \<Rightarrow> r = None \<and> estop s'
           | Some meds \<Rightarrow>
               length meds \<le> MAX_BLOCKS
               \<and> (length meds < 5 \<longrightarrow> r = None)
               \<and> (5 \<le> length meds \<longrightarrow>
                    r = Some (trimmed_mean (trim_round (length meds)) meds)
                    \<and> 2 * trim_round (length meds) < length meds))))
   \<and> (quiet s \<and> echo_valid s \<longrightarrow> (\<exists>r' s''. readRobustDistance4sCm s = Some (r', s'')))"
  using readRobustDistance4sCm_result[of s r s'] readRobustDistance4sCm_returns[of s]
  by (intro conjI impI) (simp_all only:)


section \<open>A measurement on the example\<close>

text \<open>
  Every echo 600 microseconds long, the clock half a second further at each reading:
  the window holds seven blocks, each with the median \<open>echo_cm\<close>.
\<close>

definition echo_600 :: "st \<Rightarrow> bool" where
  "echo_600 s = (\<forall>k. echoIn s k = 600)"

definition clock_at :: "32 word \<Rightarrow> st \<Rightarrow> bool" where
  "clock_at t s = (\<forall>x. clockIn s (clockPos s + x) = t + of_nat (500 * x))"

definition echo_cm :: rat where
  "echo_cm = (of_nat 600 * US_CM_PER_US) / 2"

definition pinged :: "nat \<Rightarrow> nat \<Rightarrow> nat \<Rightarrow> st \<Rightarrow> st" where
  "pinged q e c s =
     s\<lparr>serialPos := serialPos s + q, echoPos := echoPos s + e, clockPos := clockPos s + c\<rparr>"

lemma pinged_pinged: "pinged q e c (pinged q' e' c' s) = pinged (q' + q) (e' + e) (c' + c) s"
  by (simp add: pinged_def add.assoc)

lemma quiet_pinged: "quiet s \<Longrightarrow> quiet (pinged q e c s)"
  by (simp add: quiet_def pinged_def)

lemma echo_600_pinged: "echo_600 s \<Longrightarrow> echo_600 (pinged q e c s)"
  by (simp add: echo_600_def pinged_def)

lemma clock_at_pinged: "clock_at t s \<Longrightarrow> clock_at (t + of_nat (500 * c)) (pinged q e c s)"
  by (simp add: clock_at_def pinged_def add.assoc distrib_left)

lemma pollEstop_pinged: "quiet s \<Longrightarrow> pollEstopDuringMotion s = pinged 1 0 0 s"
  by (simp add: pollEstop_quiet advance_def pinged_def)

lemma ping_pinged: "echo_600 s \<Longrightarrow> pingDistanceCm s = (Some echo_cm, pinged 0 1 0 s)"
  by (simp add: pingDistanceCm_def pulseIn_def echo_600_def echo_cm_def pinged_def)

lemma millis_pinged: "clock_at t s \<Longrightarrow> millis s = (t, pinged 0 0 1 s)"
  using spec[of "\<lambda>x. clockIn s (clockPos s + x) = t + of_nat (500 * x)" 0]
  by (simp add: millis_def clock_at_def pinged_def)

lemma medianOfBlock_fill_run:
  "quiet s \<Longrightarrow> echo_600 s \<Longrightarrow> length xs + n = US_BLOCK_SIZE \<Longrightarrow>
     medianOfBlock_fill xs s = Some (Some (xs @ replicate n echo_cm), pinged n n 0 s)"
proof (induction n arbitrary: xs s)
  case 0
  then show ?case by (subst medianOfBlock_fill.simps) (simp add: pinged_def)
next
  case (Suc n)
  let ?s2 = "pinged 1 1 0 s"
  have q: "quiet ?s2" "echo_600 ?s2" using Suc.prems by (simp_all add: quiet_pinged echo_600_pinged)
  have l: "length (xs @ [echo_cm]) + n = US_BLOCK_SIZE" using Suc.prems by simp
  have e: "\<not> estop (pinged 1 0 0 s)" using Suc.prems(1) by (simp add: quiet_def pinged_def)
  have p: "pingDistanceCm (pinged 1 0 0 s) = (Some echo_cm, ?s2)"
    using ping_pinged[of "pinged 1 0 0 s"] Suc.prems(2)
    by (simp add: echo_600_pinged pinged_pinged)
  have lt: "length xs < US_BLOCK_SIZE" using Suc.prems by simp
  have "medianOfBlock_fill xs s = medianOfBlock_fill (xs @ [echo_cm]) ?s2"
    by (subst medianOfBlock_fill.simps)
       (simp only: lt if_True pollEstop_pinged[OF Suc.prems(1)] Let_def e if_False p prod.case
                   option.case)
  also have "\<dots> = Some (Some ((xs @ [echo_cm]) @ replicate n echo_cm), pinged n n 0 ?s2)"
    by (rule Suc.IH[OF q l])
  also have "\<dots> = Some (Some (xs @ replicate (Suc n) echo_cm), pinged (Suc n) (Suc n) 0 s)"
    by (simp add: pinged_pinged)
  finally show ?case .
qed

lemma sort_replicate: "sort (replicate n (x::rat)) = replicate n x"
  by (induction n) (simp_all add: insort_is_Cons)

lemma medianOfBlockCm_run:
  assumes "quiet s" "echo_600 s"
  shows "medianOfBlockCm s = Some (Some echo_cm, pinged 7 7 0 s)"
  using medianOfBlock_fill_run[OF assms, of "[]" 7]
  by (simp add: medianOfBlockCm_def US_BLOCK_SIZE_def sort_replicate)

lemma window_open:
  assumes "n < 8"
  shows "(of_nat (500 * n) :: 32 word) < US_WINDOW_MS"
proof -
  have "unat (of_nat (500 * n) :: 32 word) = 500 * n mod 2 ^ LENGTH(32)"
    by (rule unat_of_nat)
  also have "\<dots> = 500 * n" using assms by simp
  finally have a: "unat (of_nat (500 * n) :: 32 word) = 500 * n" .
  have b: "unat US_WINDOW_MS = 4000" by (simp add: US_WINDOW_MS_def)
  have "500 * n < 4000" using assms by simp
  then show ?thesis by (simp only: word_less_nat_alt a b)
qed

lemma robust_window_run:
  "quiet s \<Longrightarrow> echo_600 s \<Longrightarrow> clock_at (t0 + of_nat (500 * (8 - k))) s \<Longrightarrow> k \<le> 7 \<Longrightarrow>
   length meds + k = 7 \<Longrightarrow>
     robust_window t0 meds s
       = Some (Some (meds @ replicate k echo_cm), pinged (8 * k) (7 * k) (k + 1) s)"
proof (induction k arbitrary: meds s)
  case 0
  have "\<not> (4000::32 word) < 4000" by simp
  with millis_pinged[OF 0(3)] show ?case
    by (subst robust_window.simps) (simp add: US_WINDOW_MS_def)
next
  case (Suc k)
  let ?s1 = "pinged 0 0 1 s"
  let ?s2 = "pinged 1 0 1 s"
  let ?s3 = "pinged 8 7 1 s"
  have m: "millis s = (t0 + of_nat (500 * (8 - Suc k)), ?s1)" by (rule millis_pinged[OF Suc.prems(3)])
  have w: "t0 + of_nat (500 * (8 - Suc k)) - t0 < US_WINDOW_MS"
    using window_open[of "8 - Suc k"] Suc.prems(4) by simp
  have q1: "quiet ?s1" by (rule quiet_pinged[OF Suc.prems(1)])
  have p: "pollEstopDuringMotion ?s1 = ?s2" using pollEstop_pinged[OF q1] by (simp add: pinged_pinged)
  have q2: "quiet ?s2" "echo_600 ?s2" using Suc.prems by (simp_all add: quiet_pinged echo_600_pinged)
  have e: "\<not> estop ?s2" using q2(1) by (simp add: quiet_def)
  have b: "medianOfBlockCm ?s2 = Some (Some echo_cm, ?s3)"
    using medianOfBlockCm_run[OF q2] by (simp add: pinged_pinged)
  have q3: "quiet ?s3" "echo_600 ?s3" using Suc.prems by (simp_all add: quiet_pinged echo_600_pinged)
  have "of_nat (500 * (8 - Suc k)) + (500::32 word) = of_nat (500 * (8 - k))"
    using Suc.prems(4) by (simp add: Suc_diff_le algebra_simps)
  then have c3: "clock_at (t0 + of_nat (500 * (8 - k))) ?s3"
    using clock_at_pinged[OF Suc.prems(3), of 1 8 7] by (simp add: add.assoc)
  have k: "k \<le> 7" using Suc.prems(4) by simp
  have l: "length (meds @ [echo_cm]) + k = 7" using Suc.prems(5) by simp
  have nb: "\<not> MAX_BLOCKS \<le> length (meds @ [echo_cm])"
    using Suc.prems(5) by (simp add: MAX_BLOCKS_def US_WINDOW_MS_def US_BLOCK_SIZE_def
                                      US_PING_PERIOD_MS_def)
  have "robust_window t0 meds s = robust_window t0 (meds @ [echo_cm]) ?s3"
    by (subst robust_window.simps)
       (simp only: m w p e b nb prod.case option.case if_True if_False Let_def)
  also have "\<dots> = Some (Some ((meds @ [echo_cm]) @ replicate k echo_cm),
                          pinged (8 * k) (7 * k) (k + 1) ?s3)"
    by (rule Suc.IH[OF q3 c3 k l])
  also have "\<dots> = Some (Some (meds @ replicate (Suc k) echo_cm),
                          pinged (8 * Suc k) (7 * Suc k) (Suc k + 1) s)"
    by (simp add: pinged_pinged)
  finally show ?case .
qed

lemma robust_of_medians_demo: "robust_of_medians (replicate 7 x) = Some x"
proof -
  have "trim_round 7 = 1" by (simp add: trim_round_div)
  then have "trimmed_mean (trim_round 7) (replicate 7 x) = x"
    by (simp add: trimmed_mean_def sort_replicate sum_list_replicate)
  with robust_of_medians_mean(1)[of "replicate 7 x"] show ?thesis by simp
qed

lemma readRobustDistance4sCm_run:
  assumes "quiet s" "echo_600 s" "clock_at t s"
  shows "readRobustDistance4sCm s = Some (Some echo_cm, pinged 56 49 9 s)"
proof -
  let ?s1 = "pinged 0 0 1 s"
  have m: "millis s = (t, ?s1)" by (rule millis_pinged[OF assms(3)])
  have q: "quiet ?s1" "echo_600 ?s1" using assms by (simp_all add: quiet_pinged echo_600_pinged)
  have c: "clock_at (t + of_nat (500 * (8 - 7))) ?s1"
    using clock_at_pinged[OF assms(3), of 1 0 0] by simp
  from robust_window_run[OF q c, of "[]"] m show ?thesis
    by (simp add: readRobustDistance4sCm_def pinged_pinged robust_of_medians_demo)
qed

lemma echo_cm_HI: "echo_cm < INVENTORY_THRESH_CM"
  by (simp add: echo_cm_def INVENTORY_THRESH_CM_def US_CM_PER_US_def)

section \<open>An inventory run on the example\<close>

lemma move_long:
  assumes "switch_at 20 s" "silent s" "\<not> estop s" "homed s" "currentBin s \<noteq> 3"
  shows "moveOneBin s = (True, (moved 111 222 152 s)
           \<lparr>moveOneBinCalls := moveOneBinCalls s + 1, currentBin := currentBin s + 1\<rparr>)"
  using assms by (simp add: moveOneBin_def Let_def)

lemma move_short:
  assumes "switch_at 0 s" "silent s" "\<not> estop s" "homed s" "currentBin s \<noteq> 3"
  shows "moveOneBin s = (True, (moved 89 178 20 s)
           \<lparr>moveOneBinCalls := moveOneBinCalls s + 1, currentBin := currentBin s + 1\<rparr>)"
  using assms by (simp add: moveOneBin_def Let_def)

lemma moveBins_two:
  assumes "switch_at 20 s" "silent s" "\<not> estop s" "homed s" "currentBin s = 0"
  shows "moveBins 2 s = (True, (moved 200 400 172 s)
           \<lparr>moveOneBinCalls := moveOneBinCalls s + 2, currentBin := 2\<rparr>)"
proof -
  let ?s1 = "(moved 111 222 152 s)\<lparr>moveOneBinCalls := moveOneBinCalls s + 1, currentBin := 1\<rparr>"
  have a: "moveOneBin s = (True, ?s1)" using move_long[of s] assms by simp
  have b: "moveOneBin ?s1 = (True, (moved 200 400 172 s)
           \<lparr>moveOneBinCalls := moveOneBinCalls s + 2, currentBin := 2\<rparr>)"
    using move_short[of ?s1] assms by simp
  have "nat 2 = Suc (Suc 0)" by simp
  then show ?thesis by (simp only: moveBins_def moveBins_loop.simps a b prod.case bool.case)
qed

definition inventoried :: "32 word \<Rightarrow> st \<Rightarrow> st" where
  "inventoried t s = (moved 200 456 172 s)
     \<lparr>moveOneBinCalls := moveOneBinCalls s + 2, currentBin := 2,
      echoPos := echoPos s + 49, clockPos := clockPos s + 10,
      tx := tx s @ [''HI'', ''bin'' @ print_int (lastSelectedBin s) @ '','' @ ''HI'' @ '',''
                            @ print_nat (unat (t + 4500))],
      inventoryPending := False\<rparr>"

lemma inventory_measure_demo:
  assumes "switch_at 20 s" "silent s" "\<not> estop s" "homed s" "currentBin s = 0"
    and "\<not> beamStableBlocked s" "inventoryPending s"
    and "0 \<le> lastSelectedBin s" "lastSelectedBin s \<le> 3" "echo_600 s" "clock_at t s"
  shows "inventory_measure s = Some (True, inventoried t s)"
proof -
  let ?s1 = "(moved 200 400 172 s)\<lparr>moveOneBinCalls := moveOneBinCalls s + 2, currentBin := 2\<rparr>"
  have m: "moveBins 2 s = (True, ?s1)" by (rule moveBins_two[OF assms(1-5)])
  have q: "quiet ?s1" using assms(2,3) by (simp add: quiet_iff)
  have e: "echo_600 ?s1" using assms(10) by (simp add: echo_600_def)
  have c: "clock_at t ?s1" using assms(11) by (simp add: clock_at_def)
  have r: "readRobustDistance4sCm ?s1 = Some (Some echo_cm, pinged 56 49 9 ?s1)"
    by (rule readRobustDistance4sCm_run[OF q e c])
  have ne: "\<not> estop (pinged 56 49 9 ?s1)" using assms(3) by (simp add: pinged_def)
  have ck: "clockIn s (clockPos s + 9) = t + 4500"
    using assms(11) by (simp add: clock_at_def)
  have pre: "\<not> (\<not> homed s)" "\<not> beamStableBlocked s" "\<not> (\<not> inventoryPending s)"
    "\<not> (lastSelectedBin s < 0 \<or> lastSelectedBin s > 3)"
    using assms by simp_all
  have "inventory_measure s
      = Some (True, (printInventoryLogLine (lastSelectedBin s) True
                       (println ''HI'' (pinged 56 49 9 ?s1)))\<lparr>inventoryPending := False\<rparr>)"
    unfolding inventory_measure_def
    by (simp only: pre if_False m prod.case bool.case r option.case ne Let_def echo_cm_HI if_True)
       (simp add: println_def pinged_def)
  also have "(printInventoryLogLine (lastSelectedBin s) True
                (println ''HI'' (pinged 56 49 9 ?s1)))\<lparr>inventoryPending := False\<rparr>
             = inventoried t s"
    using assms(8,9) ck
    by (simp add: printInventoryLogLine_def PRINT_INV_LOG_LINE_def millis_def println_def
          pinged_def inventoried_def moved_def advance_def enableDriver_def)
  finally show ?thesis .
qed

lemma inventoried_at:
  assumes "switch_at 20 s" "silent s" "\<not> estop s" "homed s"
  shows "switch_at 20 (inventoried t s)" "silent (inventoried t s)" "\<not> estop (inventoried t s)"
    "homed (inventoried t s)" "currentBin (inventoried t s) = 2"
    "\<not> inventoryPending (inventoried t s)"
    "tx (inventoried t s) = tx s @ [''HI'', ''bin'' @ print_int (lastSelectedBin s) @ '','' @ ''HI''
                                       @ '','' @ print_nat (unat (t + 4500))]"
  using assms by (simp_all add: inventoried_def)

text \<open>The sequence with bin 3 queued, then the sequence with nothing queued.\<close>

definition inventoried_bin3 :: "32 word \<Rightarrow> st \<Rightarrow> st" where
  "inventoried_bin3 t s = (moved 111 222 152 (inventoried t s))
     \<lparr>binRequested := False, requestedBin := - 1, moveOneBinCalls := moveOneBinCalls s + 3,
      currentBin := 3, lastSelectedBin := 3\<rparr>"

lemma runInventorySequence_demo_bin3:
  assumes "switch_at 20 s" "silent s" "\<not> estop s" "homed s" "currentBin s = 0"
    and "\<not> beamStableBlocked s" "inventoryPending s"
    and "0 \<le> lastSelectedBin s" "lastSelectedBin s \<le> 3" "echo_600 s" "clock_at t s"
    and "binRequested s" "requestedBin s = 3" "\<not> gateLockout s"
  shows "runInventorySequence s = Some (True, inventoried_bin3 t s)"
proof -
  let ?i = "inventoried t s"
  let ?j = "?i\<lparr>binRequested := False, requestedBin := - 1\<rparr>"
  note im = inventory_measure_demo[OF assms(1-11)]
  note at = inventoried_at[OF assms(1-4), of t]
  have d: "bin_due ?i" "requestedBin ?i = 3"
    using assms(12-14) at(3,6) by (simp_all add: bin_due_def) (simp_all add: inventoried_def)
  have c: "moveOneBinCalls ?i = moveOneBinCalls s + 2" by (simp add: inventoried_def)
  have one: "moveOneBin ?j = (True, (moved 111 222 152 ?j)
               \<lparr>moveOneBinCalls := moveOneBinCalls ?j + 1, currentBin := currentBin ?j + 1\<rparr>)"
    using at by (intro move_long) simp_all
  have "nat 1 = Suc 0" by simp
  then have mv: "moveToBin 3 ?j = (True, (moved 111 222 152 ?j)
               \<lparr>moveOneBinCalls := moveOneBinCalls ?j + 1, currentBin := currentBin ?j + 1\<rparr>)"
    using at(4,5)
    by (simp add: moveToBin_def Let_def signed_modulo_int_def moveBins_def one)
  have "tryRunQueuedCommands ?i = Some (inventoried_bin3 t s)"
    using at(5) c by (simp add: drain_bin[OF d(1)] d(2) mv inventoried_bin3_def)
  with im show ?thesis by (simp add: runInventorySequence_measure)
qed

lemma runInventorySequence_demo_plain:
  assumes "switch_at 20 s" "silent s" "\<not> estop s" "homed s" "currentBin s = 0"
    and "\<not> beamStableBlocked s" "inventoryPending s"
    and "0 \<le> lastSelectedBin s" "lastSelectedBin s \<le> 3" "echo_600 s" "clock_at t s"
    and "\<not> binRequested s"
  shows "runInventorySequence s = Some (True, inventoried t s)"
proof -
  note im = inventory_measure_demo[OF assms(1-11)]
  have "\<not> binRequested (inventoried t s)" using assms(12) by (simp add: inventoried_def)
  then have "\<not> inv_due (inventoried t s)" "\<not> bin_due (inventoried t s)"
    using inventoried_at(6)[OF assms(1-4), of t] by (simp_all add: inv_due_def bin_due_def)
  then have "tryRunQueuedCommands (inventoried t s) = Some (inventoried t s)"
    by (rule drain_nothing)
  with im show ?thesis by (simp add: runInventorySequence_measure)
qed

section \<open>Inventory report and deferred bin request\<close>

text \<open>Modelled from the spec: the class reported for a distance, undefined or not.\<close>

definition inv_class :: "rat option \<Rightarrow> string" where
  "inv_class d = (case d of None \<Rightarrow> ''LO'' | Some x \<Rightarrow> if x < 12 then ''HI'' else ''LO'')"

lemma inventory_measure_cases:
  assumes "inventory_measure s = Some (True, s1)"
  shows "\<exists>s0 d s2. homed s \<and> \<not> beamStableBlocked s \<and> inventoryPending s
           \<and> 0 \<le> lastSelectedBin s \<and> lastSelectedBin s \<le> 3
           \<and> moveBins 2 s = (True, s0) \<and> readRobustDistance4sCm s0 = Some (d, s2)
           \<and> \<not> estop s2
           \<and> s1 = (printInventoryLogLine (lastSelectedBin s) (inv_class d = ''HI'')
                    (println (inv_class d) s2))\<lparr>inventoryPending := False\<rparr>"
proof -
  from assms have pre: "homed s" "\<not> beamStableBlocked s" "inventoryPending s"
    "0 \<le> lastSelectedBin s" "lastSelectedBin s \<le> 3"
    by (auto simp: inventory_measure_def split: if_splits)
  obtain b0 s0 where m: "moveBins 2 s = (b0, s0)" by (cases "moveBins 2 s")
  from assms pre m have b0: "b0" by (cases b0) (auto simp: inventory_measure_def)
  from assms pre m b0 obtain d s2 where r: "readRobustDistance4sCm s0 = Some (d, s2)"
    by (auto simp: inventory_measure_def split: option.splits)
  from assms pre m b0 r have e: "\<not> estop s2"
    by (auto simp: inventory_measure_def split: if_splits)
  have l: "lastSelectedBin s2 = lastSelectedBin s"
    using moveBins_loop_frame[of 2 s b0 s0] m readRobustDistance4sCm_frame[OF r]
    by (simp add: moveBins_def io_frame_def)
  have h: "(case d of None \<Rightarrow> False | Some x \<Rightarrow> x < INVENTORY_THRESH_CM) = (inv_class d = ''HI'')"
    by (simp add: inv_class_def INVENTORY_THRESH_CM_def split: option.splits)
  have c: "(if inv_class d = ''HI'' then ''HI'' else ''LO'') = inv_class d"
    by (simp add: inv_class_def split: option.splits)
  from assms pre m b0 r e
  have "s1 = (printInventoryLogLine (lastSelectedBin s) (inv_class d = ''HI'')
                    (println (inv_class d) s2))\<lparr>inventoryPending := False\<rparr>"
    by (simp add: inventory_measure_def Let_def h c println_def l)
  with pre m b0 r e show ?thesis
    by (intro exI[of _ s0] exI[of _ d] exI[of _ s2]) simp
qed

lemma inventory_measure_tx:
  assumes "inventory_measure s = Some (ok, s1)"
  shows "\<not> ok \<Longrightarrow> tx s1 = tx s"
proof -
  assume n: "\<not> ok"
  show "tx s1 = tx s"
  proof (cases "\<not> homed s \<or> beamStableBlocked s \<or> \<not> inventoryPending s
                 \<or> lastSelectedBin s < 0 \<or> lastSelectedBin s > 3")
    case True
    with assms show ?thesis by (auto simp: inventory_measure_def split: if_splits)
  next
    case pre: False
    obtain b0 s0 where m: "moveBins 2 s = (b0, s0)" by (cases "moveBins 2 s")
    have f0: "tx s0 = tx s" using moveBins_loop_frame[of 2 s b0 s0] m by (simp add: moveBins_def)
    show ?thesis
    proof (cases b0)
      case False
      with assms pre m f0 show ?thesis by (auto simp: inventory_measure_def)
    next
      case True
      with assms pre m obtain d s2 where r: "readRobustDistance4sCm s0 = Some (d, s2)"
        by (auto simp: inventory_measure_def split: option.splits)
      have f2: "tx s2 = tx s0" using readRobustDistance4sCm_frame[OF r] by (simp add: io_frame_def)
      from assms pre m True r n have "s1 = s2"
        by (auto simp: inventory_measure_def Let_def split: if_splits)
      with f0 f2 show ?thesis by simp
    qed
  qed
qed

lemma drain_idle_tx:
  assumes "\<not> inventoryPending s" "tryRunQueuedCommands s = Some s'"
  shows "tx s' = tx s"
proof (cases "bin_due s")
  case True
  let ?s0 = "s\<lparr>binRequested := False, requestedBin := - 1\<rparr>"
  obtain ok s1 where m: "moveToBin (requestedBin s) ?s0 = (ok, s1)"
    by (cases "moveToBin (requestedBin s) ?s0")
  from assms True m have "s' = (if ok then s1\<lparr>lastSelectedBin := requestedBin s\<rparr> else s1)"
    by (auto simp: drain_bin split: bool.splits)
  with moveToBin_frame[OF m] show ?thesis by simp
next
  case False
  moreover have "\<not> inv_due s" using assms(1) by (simp add: inv_due_def)
  ultimately show ?thesis using assms(2) by (simp add: drain_nothing)
qed

lemma print_bin_digit:
  "0 \<le> b \<Longrightarrow> b \<le> 3 \<Longrightarrow> print_int b \<in> {''0'', ''1'', ''2'', ''3''}"
proof -
  assume "0 \<le> b" "b \<le> 3"
  then consider "b = 0" | "b = 1" | "b = 2" | "b = 3" by linarith
  then show ?thesis
    by cases (simp_all add: print_int_def print_nat.simps)
qed

text \<open>
  Claim C5. A sequence that completes has rotated two bins and measured a distance
  \<open>d\<close>; it adds two lines to the output: the class, which is \<^verbatim>\<open>HI\<close> exactly when \<open>d\<close>
  is defined and below 12, and \<^verbatim>\<open>LO\<close> otherwise, the undefined distance included; and
  the line \<^verbatim>\<open>bin\<close>, the digit of the bin selected last, a comma, the same class, a
  comma, the clock reading in decimal. A sequence that fails adds no line.
\<close>

theorem inventory_classification:
  "(runInventorySequence s = Some (True, s') \<longrightarrow>
      (\<exists>s0 d s2. moveBins 2 s = (True, s0) \<and> readRobustDistance4sCm s0 = Some (d, s2)
         \<and> tx s' = tx s @ [inv_class d,
                            ''bin'' @ print_int (lastSelectedBin s) @ '','' @ inv_class d @ '',''
                              @ print_nat (unat (fst (millis s2)))]
         \<and> print_int (lastSelectedBin s) \<in> {''0'', ''1'', ''2'', ''3''}
         \<and> (inv_class d = ''HI'') = (\<exists>x. d = Some x \<and> x < INVENTORY_THRESH_CM)
         \<and> (d = None \<longrightarrow> inv_class d = ''LO'')))
   \<and> (runInventorySequence s = Some (False, s') \<longrightarrow> tx s' = tx s)"
proof (intro conjI impI)
  assume a: "runInventorySequence s = Some (False, s')"
  then obtain b1 s1 where im: "inventory_measure s = Some (b1, s1)"
    by (auto simp: runInventorySequence_measure split: option.splits)
  with a have "b1 = False \<and> s1 = s'"
    by (cases b1) (auto simp: runInventorySequence_measure split: option.splits)
  with inventory_measure_tx[OF im] show "tx s' = tx s" by simp
next
  assume a: "runInventorySequence s = Some (True, s')"
  then obtain b1 s1 where im0: "inventory_measure s = Some (b1, s1)"
    by (auto simp: runInventorySequence_measure split: option.splits)
  with a have b1: "b1" and dr: "tryRunQueuedCommands s1 = Some s'"
    by (cases b1; auto simp: runInventorySequence_measure split: option.splits)+
  from im0 b1 have im: "inventory_measure s = Some (True, s1)" by simp
  from inventory_measure_cases[OF im] obtain s0 d s2 where
    c: "0 \<le> lastSelectedBin s" "lastSelectedBin s \<le> 3"
       "moveBins 2 s = (True, s0)" "readRobustDistance4sCm s0 = Some (d, s2)"
       "s1 = (printInventoryLogLine (lastSelectedBin s) (inv_class d = ''HI'')
                    (println (inv_class d) s2))\<lparr>inventoryPending := False\<rparr>"
    by blast
  have t0: "tx s0 = tx s" using moveBins_loop_frame[of 2 s True s0] c(3) by (simp add: moveBins_def)
  have t2: "tx s2 = tx s0" using readRobustDistance4sCm_frame[OF c(4)] by (simp add: io_frame_def)
  have k: "(if inv_class d = ''HI'' then ''HI'' else ''LO'') = inv_class d"
    by (simp add: inv_class_def split: option.splits)
  have t1: "tx s1 = tx s @ [inv_class d,
                            ''bin'' @ print_int (lastSelectedBin s) @ '','' @ inv_class d @ '',''
                              @ print_nat (unat (fst (millis s2)))]"
    using c(1,2) t0 t2
    by (simp add: c(5) printInventoryLogLine_def PRINT_INV_LOG_LINE_def millis_def println_def k)
  have np: "\<not> inventoryPending s1" by (simp add: c(5))
  have t: "tx s' = tx s1" by (rule drain_idle_tx[OF np dr])
  have h: "(inv_class d = ''HI'') = (\<exists>x. d = Some x \<and> x < INVENTORY_THRESH_CM)"
    by (simp add: inv_class_def INVENTORY_THRESH_CM_def split: option.splits)
  have l: "d = None \<longrightarrow> inv_class d = ''LO''" by (simp add: inv_class_def)
  from c(3,4) t t1 print_bin_digit[OF c(1,2)] h l
  show "\<exists>s0 d s2. moveBins 2 s = (True, s0) \<and> readRobustDistance4sCm s0 = Some (d, s2)
         \<and> tx s' = tx s @ [inv_class d,
                            ''bin'' @ print_int (lastSelectedBin s) @ '','' @ inv_class d @ '',''
                              @ print_nat (unat (fst (millis s2)))]
         \<and> print_int (lastSelectedBin s) \<in> {''0'', ''1'', ''2'', ''3''}
         \<and> (inv_class d = ''HI'') = (\<exists>x. d = Some x \<and> x < INVENTORY_THRESH_CM)
         \<and> (d = None \<longrightarrow> inv_class d = ''LO'')"
    by (intro exI[of _ s0] exI[of _ d] exI[of _ s2]) simp
qed

lemma inventory_measure_bin:
  assumes "inventory_measure s = Some (True, s1)" "0 \<le> currentBin s" "currentBin s \<le> 3"
  shows "homed s1 \<and> 0 \<le> currentBin s1 \<and> currentBin s1 \<le> 3"
proof -
  from inventory_measure_cases[OF assms(1)] obtain s0 d s2 where
    c: "homed s" "moveBins 2 s = (True, s0)" "readRobustDistance4sCm s0 = Some (d, s2)"
       "s1 = (printInventoryLogLine (lastSelectedBin s) (inv_class d = ''HI'')
                    (println (inv_class d) s2))\<lparr>inventoryPending := False\<rparr>"
    by blast
  from c(2) have "moveBins_loop 2 s = (True, s0)" by (simp add: moveBins_def)
  from moveBins_loop_effect[OF this c(1) assms(2,3)]
  have b0: "homed s0 \<and> 0 \<le> currentBin s0 \<and> currentBin s0 \<le> 3" by simp
  from readRobustDistance4sCm_frame[OF c(3)]
  have "homed s2 = homed s0 \<and> currentBin s2 = currentBin s0" by (simp add: io_frame_def)
  with b0 show ?thesis by (simp add: c(4) printInventoryLogLine_fields println_def)
qed

lemma gate_input_queue:
  "binRequested (gate_input s) = binRequested s" "requestedBin (gate_input s) = requestedBin s"
  "inventoryRequested (gate_input s) = inventoryRequested s"
  "currentBin (gate_input s) = currentBin s" "pulses (gate_input s) = pulses s"
  "estop (gate_input s) = estop s"
  by (simp_all add: gate_input_def beamBlockedRaw_def millis_def beam_debounce_def Let_def)

lemma gate_rearm_queue:
  assumes "gate_rearm s = (fired, s')"
  shows "binRequested s' = binRequested s" "requestedBin s' = requestedBin s"
    "inventoryRequested s' = inventoryRequested s"
    "currentBin s' = currentBin s" "pulses s' = pulses s" "estop s' = estop s"
    "fired \<Longrightarrow> inventoryPending s'"
  using assms by (auto simp: gate_rearm_def millis_def split: if_splits)

lemma updateBeamDebounce_no_inventory:
  assumes "\<not> inventoryRequested s"
  shows "\<exists>sb. updateBeamDebounce s = Some sb \<and> binRequested sb = binRequested s
           \<and> requestedBin sb = requestedBin s \<and> currentBin sb = currentBin s
           \<and> pulses sb = pulses s"
proof -
  obtain fired s3 where g: "gate_rearm (gate_input s) = (fired, s3)"
    by (cases "gate_rearm (gate_input s)")
  note q = gate_rearm_queue[OF g]
  have u: "updateBeamDebounce s = Some s3"
  proof (cases fired)
    case True
    from q(7)[OF True] q(3) assms have "\<not> inv_due s3" "\<not> bin_due s3"
      by (simp_all add: inv_due_def bin_due_def gate_input_queue)
    with g True show ?thesis by (simp add: updateBeamDebounce_gate_input drain_nothing)
  next
    case False
    with g show ?thesis by (simp add: updateBeamDebounce_gate_input)
  qed
  with q show ?thesis by (simp add: gate_input_queue)
qed

text \<open>
  Claim C8. The re-arm test that enters the pending state keeps a queued bin request
  as it is, and a call of \<^verbatim>\<open>updateBeamDebounce\<close> with no inventory queued returns with
  the request still queued and the carousel where it was. While \<^verbatim>\<open>inventoryPending\<close>
  is set a drain does nothing unless the inventory request is due, and then the drain is
  the inventory sequence and nothing after it. A sequence that fails leaves the bin
  request queued. A sequence that completes with a bin request queued and no lockout
  has cleared \<^verbatim>\<open>inventoryPending\<close> and then run the queued move from the state at the
  end of the measurement; when that move succeeds the carousel is at the queued target.
\<close>

theorem queued_bin_waits_for_inventory:
  "(gate_rearm s = (True, sa) \<longrightarrow>
      inventoryPending sa \<and> binRequested sa = binRequested s \<and> requestedBin sa = requestedBin s)
   \<and> (\<not> inventoryRequested s \<longrightarrow>
        (\<exists>sb. updateBeamDebounce s = Some sb \<and> binRequested sb = binRequested s
           \<and> requestedBin sb = requestedBin s \<and> currentBin sb = currentBin s
           \<and> pulses sb = pulses s))
   \<and> (inventoryPending s \<and> \<not> inv_due s \<longrightarrow> tryRunQueuedCommands s = Some s)
   \<and> (inv_due s \<longrightarrow>
        tryRunQueuedCommands s =
          (case runInventorySequence (s\<lparr>inventoryRequested := False\<rparr>) of
             None \<Rightarrow> None | Some (ok, sc) \<Rightarrow> Some sc))
   \<and> (runInventorySequence s = Some (False, sc) \<longrightarrow>
        binRequested sc = binRequested s \<and> requestedBin sc = requestedBin s
        \<and> inventoryPending sc = inventoryPending s)
   \<and> (runInventorySequence s = Some (True, sd) \<and> binRequested s \<and> \<not> gateLockout s
        \<and> 0 \<le> currentBin s \<and> currentBin s \<le> 3 \<longrightarrow>
        (\<exists>s1 ok s2. inventory_measure s = Some (True, s1) \<and> \<not> inventoryPending s1
           \<and> moveToBin (requestedBin s) (s1\<lparr>binRequested := False, requestedBin := - 1\<rparr>) = (ok, s2)
           \<and> sd = (if ok then s2\<lparr>lastSelectedBin := requestedBin s\<rparr> else s2)
           \<and> (ok \<longrightarrow> currentBin sd = requestedBin s \<and> lastSelectedBin sd = requestedBin s)
           \<and> \<not> binRequested sd \<and> \<not> inventoryPending sd))"
proof -
  have a: "gate_rearm s = (True, sa) \<longrightarrow>
      inventoryPending sa \<and> binRequested sa = binRequested s \<and> requestedBin sa = requestedBin s"
    using gate_rearm_queue[of s True sa] by blast
  have b: "\<not> inventoryRequested s \<longrightarrow>
        (\<exists>sb. updateBeamDebounce s = Some sb \<and> binRequested sb = binRequested s
           \<and> requestedBin sb = requestedBin s \<and> currentBin sb = currentBin s
           \<and> pulses sb = pulses s)"
    using updateBeamDebounce_no_inventory[of s] by blast
  have c: "inventoryPending s \<and> \<not> inv_due s \<longrightarrow> tryRunQueuedCommands s = Some s"
    by (simp add: drain_nothing bin_due_def)
  have d: "inv_due s \<longrightarrow>
        tryRunQueuedCommands s =
          (case runInventorySequence (s\<lparr>inventoryRequested := False\<rparr>) of
             None \<Rightarrow> None | Some (ok, sc) \<Rightarrow> Some sc)"
    by (simp add: drain_inventory)
  have e: "runInventorySequence s = Some (False, sc) \<longrightarrow>
        binRequested sc = binRequested s \<and> requestedBin sc = requestedBin s
        \<and> inventoryPending sc = inventoryPending s"
    using runInventorySequence_effect(4)[of s False sc] by simp
  have f: "\<exists>s1 ok s2. inventory_measure s = Some (True, s1) \<and> \<not> inventoryPending s1
           \<and> moveToBin (requestedBin s) (s1\<lparr>binRequested := False, requestedBin := - 1\<rparr>) = (ok, s2)
           \<and> sd = (if ok then s2\<lparr>lastSelectedBin := requestedBin s\<rparr> else s2)
           \<and> (ok \<longrightarrow> currentBin sd = requestedBin s \<and> lastSelectedBin sd = requestedBin s)
           \<and> \<not> binRequested sd \<and> \<not> inventoryPending sd"
    if r: "runInventorySequence s = Some (True, sd)" and q: "binRequested s" "\<not> gateLockout s"
      and cb: "0 \<le> currentBin s" "currentBin s \<le> 3"
  proof -
    from r obtain b1 s1 where im0: "inventory_measure s = Some (b1, s1)"
      by (auto simp: runInventorySequence_measure split: option.splits)
    with r have b1: "b1" and dr: "tryRunQueuedCommands s1 = Some sd"
      by (cases b1; auto simp: runInventorySequence_measure split: option.splits)+
    from im0 b1 have im: "inventory_measure s = Some (True, s1)" by simp
    note ef = inventory_measure_effect[OF im]
    from ef(6) have np: "\<not> inventoryPending s1" and ne: "\<not> estop s1" by simp_all
    from ef(1,3,4) q have qs: "binRequested s1" "requestedBin s1 = requestedBin s" "\<not> gateLockout s1"
      by (simp_all add: queue_frame_def)
    from np ne qs have due: "bin_due s1" by (simp add: bin_due_def)
    let ?j = "s1\<lparr>binRequested := False, requestedBin := - 1\<rparr>"
    obtain ok s2 where m: "moveToBin (requestedBin s) ?j = (ok, s2)"
      by (cases "moveToBin (requestedBin s) ?j")
    from dr due m qs(2) have sd: "sd = (if ok then s2\<lparr>lastSelectedBin := requestedBin s\<rparr> else s2)"
      by (auto simp: drain_bin split: bool.splits)
    from inventory_measure_bin[OF im cb]
    have hj: "homed ?j" "0 \<le> currentBin ?j" "currentBin ?j \<le> 3" by simp_all
    from moveToBin_effect(4)[OF m hj] have cur: "ok \<longrightarrow> currentBin s2 = requestedBin s" by simp
    from moveToBin_frame[OF m] np have fl: "\<not> binRequested s2" "\<not> inventoryPending s2" by simp_all
    from im np m sd cur fl show ?thesis
      by (intro exI[of _ s1] exI[of _ ok] exI[of _ s2]) simp
  qed
  then have g: "runInventorySequence s = Some (True, sd) \<and> binRequested s \<and> \<not> gateLockout s
        \<and> 0 \<le> currentBin s \<and> currentBin s \<le> 3 \<longrightarrow>
        (\<exists>s1 ok s2. inventory_measure s = Some (True, s1) \<and> \<not> inventoryPending s1
           \<and> moveToBin (requestedBin s) (s1\<lparr>binRequested := False, requestedBin := - 1\<rparr>) = (ok, s2)
           \<and> sd = (if ok then s2\<lparr>lastSelectedBin := requestedBin s\<rparr> else s2)
           \<and> (ok \<longrightarrow> currentBin sd = requestedBin s \<and> lastSelectedBin sd = requestedBin s)
           \<and> \<not> binRequested sd \<and> \<not> inventoryPending sd)"
    by (intro impI) (elim conjE)
  from a b c d e g show ?thesis by (intro conjI)
qed

section \<open>The example through gate, queue and inventory\<close>

lemma homed_demo_fields:
  "clockIn (homed_demo demo) = (\<lambda>k. of_nat (500 * k))" "clockPos (homed_demo demo) = 0"
  "echoIn (homed_demo demo) = (\<lambda>k. 600)" "beamIn (homed_demo demo) = (\<lambda>k. False)"
  "beamPos (homed_demo demo) = 0" "\<not> beamStableBlocked (homed_demo demo)"
  "\<not> beamLastRawBlocked (homed_demo demo)" "beamLastChangeMs (homed_demo demo) = 0"
  "\<not> gateLockout (homed_demo demo)" "gateOpenedAtMs (homed_demo demo) = 0"
  "\<not> inventoryPending (homed_demo demo)" "\<not> inventoryRequested (homed_demo demo)"
  "\<not> binRequested (homed_demo demo)" "requestedBin (homed_demo demo) = - 1"
  "tx (homed_demo demo) = []" "cmdBuf (homed_demo demo) = []"
  "moveOneBinCalls (homed_demo demo) = 0"
  by (simp_all add: homed_demo_def home_reset_def demo_def)

lemma print_nat_demo: "print_nat 4500 = ''4500''" "print_nat 8000 = ''8000''"
  by (simp_all add: print_nat.simps)

text \<open>Homed, an inventory pending, nothing queued.\<close>

definition pending_demo :: st where
  "pending_demo = (homed_demo demo)\<lparr>inventoryPending := True\<rparr>"

lemma runInventorySequence_pending_demo:
  "runInventorySequence pending_demo = Some (True, inventoried 0 pending_demo)"
  unfolding pending_demo_def
  using homed_demo_at[OF demo_at]
  by (intro runInventorySequence_demo_plain)
     (simp_all add: homed_demo_fields echo_600_def clock_at_def)

lemma tx_pending_demo: "tx (inventoried 0 pending_demo) = [''HI'', ''bin0,HI,4500'']"
  using homed_demo_at(6)[OF demo_at]
  by (simp add: inventoried_def pending_demo_def homed_demo_fields print_int_def print_nat_demo
        print_nat.simps[of 0])


theorem inventory_classification_witness:
  "runInventorySequence pending_demo = Some (True, inventoried 0 pending_demo)
   \<and> tx pending_demo = [] \<and> tx (inventoried 0 pending_demo) = [''HI'', ''bin0,HI,4500'']
   \<and> (\<exists>s0 d s2. moveBins 2 pending_demo = (True, s0)
         \<and> readRobustDistance4sCm s0 = Some (d, s2)
         \<and> tx (inventoried 0 pending_demo)
             = tx pending_demo @ [inv_class d,
                 ''bin'' @ print_int (lastSelectedBin pending_demo) @ '','' @ inv_class d @ '',''
                   @ print_nat (unat (fst (millis s2)))]
         \<and> print_int (lastSelectedBin pending_demo) \<in> {''0'', ''1'', ''2'', ''3''}
         \<and> (inv_class d = ''HI'') = (\<exists>x. d = Some x \<and> x < INVENTORY_THRESH_CM)
         \<and> (d = None \<longrightarrow> inv_class d = ''LO''))"
proof -
  note c = inventory_classification[where s = pending_demo and s' = "inventoried 0 pending_demo",
             THEN conjunct1, rule_format]
  have "tx pending_demo = []" by (simp add: pending_demo_def homed_demo_fields)
  with c[OF runInventorySequence_pending_demo] runInventorySequence_pending_demo tx_pending_demo
  show ?thesis by (intro conjI)
qed

text \<open>The measurement alone, on the example after power-up.\<close>

lemma readRobustDistance4sCm_demo:
  "readRobustDistance4sCm demo = Some (Some echo_cm, pinged 56 49 9 demo)"
  by (intro readRobustDistance4sCm_run[where t = 0])
     (simp_all add: quiet_def echo_600_def clock_at_def demo_def)

lemma readRobustDistance4sCm_trimmed_mean_demo:
  "readRobustDistance4sCm demo = Some (Some echo_cm, pinged 56 49 9 demo)
   \<and> (\<exists>w. robust_window (fst (millis demo)) [] (snd (millis demo)) = Some (w, pinged 56 49 9 demo)
        \<and> (case w of
             None \<Rightarrow> Some echo_cm = None \<and> estop (pinged 56 49 9 demo)
           | Some meds \<Rightarrow>
               length meds \<le> MAX_BLOCKS
               \<and> (length meds < 5 \<longrightarrow> Some echo_cm = None)
               \<and> (5 \<le> length meds \<longrightarrow>
                    Some echo_cm = Some (trimmed_mean (trim_round (length meds)) meds)
                    \<and> 2 * trim_round (length meds) < length meds)))
   \<and> quiet demo \<and> echo_valid demo
   \<and> (\<exists>r' s''. readRobustDistance4sCm demo = Some (r', s''))"
proof -
  have q: "quiet demo \<and> echo_valid demo" by (simp add: quiet_def echo_valid_def demo_def)
  note a = readRobustDistance4sCm_trimmed_mean[of demo "Some echo_cm" "pinged 56 49 9 demo",
             THEN conjunct1, rule_format, OF readRobustDistance4sCm_demo]
  note b = readRobustDistance4sCm_trimmed_mean[of demo "Some echo_cm" "pinged 56 49 9 demo",
             THEN conjunct2, rule_format, OF q]
  from readRobustDistance4sCm_demo a q b show ?thesis by (intro conjI) simp_all
qed

text \<open>Requests queued on the example before any homing: both fail when they run.\<close>

definition lost_bin_demo :: st where
  "lost_bin_demo = demo\<lparr>binRequested := True, requestedBin := 2\<rparr>"

definition lost_inventory_demo :: st where
  "lost_inventory_demo = demo\<lparr>inventoryRequested := True, inventoryPending := True\<rparr>"

theorem queued_failure_discarded_witness:
  "inv_due lost_inventory_demo
   \<and> runInventorySequence (lost_inventory_demo\<lparr>inventoryRequested := False\<rparr>)
       = Some (False, lost_inventory_demo\<lparr>inventoryRequested := False\<rparr>)
   \<and> tryRunQueuedCommands lost_inventory_demo
       = Some (lost_inventory_demo\<lparr>inventoryRequested := False\<rparr>)
   \<and> tryRunQueuedCommands (lost_inventory_demo\<lparr>inventoryRequested := False\<rparr>)
       = Some (lost_inventory_demo\<lparr>inventoryRequested := False\<rparr>)
   \<and> bin_due lost_bin_demo
   \<and> moveToBin (requestedBin lost_bin_demo) (lost_bin_demo\<lparr>binRequested := False, requestedBin := - 1\<rparr>)
       = (False, lost_bin_demo\<lparr>binRequested := False, requestedBin := - 1\<rparr>)
   \<and> tryRunQueuedCommands lost_bin_demo
       = Some (lost_bin_demo\<lparr>binRequested := False, requestedBin := - 1\<rparr>)
   \<and> lastSelectedBin (lost_bin_demo\<lparr>binRequested := False, requestedBin := - 1\<rparr>)
       = lastSelectedBin lost_bin_demo"
proof -
  let ?i = "lost_inventory_demo\<lparr>inventoryRequested := False\<rparr>"
  let ?b = "lost_bin_demo\<lparr>binRequested := False, requestedBin := - 1\<rparr>"
  have a: "inv_due lost_inventory_demo"
    by (simp add: inv_due_def lost_inventory_demo_def demo_def)
  have r: "runInventorySequence ?i = Some (False, ?i)"
    by (simp add: runInventorySequence.simps[of ?i]) (simp add: lost_inventory_demo_def demo_def)
  have b: "bin_due lost_bin_demo" by (simp add: bin_due_def lost_bin_demo_def demo_def)
  have m: "moveToBin (requestedBin lost_bin_demo) ?b = (False, ?b)"
    by (simp add: moveToBin_def) (simp add: lost_bin_demo_def demo_def)
  note t = queued_failure_discarded[where s = lost_inventory_demo and sa = ?i,
             THEN conjunct1, rule_format, OF conjI, OF a r]
  note u = queued_failure_discarded[where s = lost_bin_demo and sb = ?b and ok = False,
             THEN conjunct2, rule_format, OF conjI, OF b m]
  from a r t b m u show ?thesis by simp
qed

text \<open>
  The example homed, locked after a bin was pulled, the beam open again since the clock
  read 500. A command \<^verbatim>\<open>bin3\<close> is queued; the next call of \<^verbatim>\<open>updateBeamDebounce\<close>
  reads 2500 and 3000 from the clock and re-arms; the command \<^verbatim>\<open>i\<close> then runs the
  sequence, which ends with the queued move.
\<close>

definition waiting_demo :: st where
  "waiting_demo = (homed_demo demo)\<lparr>gateLockout := True, gateOpenedAtMs := 500, clockPos := 5\<rparr>"

definition queued3_demo :: st where
  "queued3_demo = resetCmdBuf (waiting_demo\<lparr>binRequested := True, requestedBin := 3\<rparr>)"

definition ready3_demo :: st where
  "ready3_demo = queued3_demo\<lparr>beamPos := 1, clockPos := 7, gateLockout := False,
     gateOpenedAtMs := 0, inventoryPending := True\<rparr>"

definition done3_demo :: st where
  "done3_demo = inventoried_bin3 3500 ready3_demo"

lemma parse_bin3: "parseBinCommand ''bin3'' = Some 3" "parseBinCommand ''bin1'' = Some 1"
  by (simp_all add: parseBinCommand_def to_lower_def)

lemma queue_bin3: "loop_command ''bin3'' waiting_demo = Some queued3_demo"
  using loop_command_queue_bin[OF parse_bin3(1), of waiting_demo]
  by (simp add: queued3_demo_def) (simp add: waiting_demo_def)

lemma rearm_queued3: "updateBeamDebounce queued3_demo = Some ready3_demo"
proof -
  have i: "gate_input queued3_demo = queued3_demo\<lparr>beamPos := 1, clockPos := 6\<rparr>"
    by (simp add: gate_input_def queued3_demo_def waiting_demo_def resetCmdBuf_def
          beamBlockedRaw_def millis_def beam_debounce_def Let_def BEAM_DEBOUNCE_MS_def
          homed_demo_fields)
  have g: "gate_rearm (queued3_demo\<lparr>beamPos := 1, clockPos := 6\<rparr>) = (True, ready3_demo)"
    by (simp add: gate_rearm_def millis_def BEAM_ARM_DELAY_MS_def ready3_demo_def
          queued3_demo_def waiting_demo_def resetCmdBuf_def homed_demo_fields)
  have n: "\<not> inv_due ready3_demo" "\<not> bin_due ready3_demo"
    by (simp_all add: inv_due_def bin_due_def ready3_demo_def queued3_demo_def waiting_demo_def
          resetCmdBuf_def homed_demo_fields)
  show ?thesis
    by (simp only: updateBeamDebounce_gate_input i g prod.case bool.case drain_nothing[OF n])
qed

lemma ready3_at:
  "switch_at 20 ready3_demo" "silent ready3_demo" "\<not> estop ready3_demo" "homed ready3_demo"
  "currentBin ready3_demo = 0" "\<not> beamStableBlocked ready3_demo" "inventoryPending ready3_demo"
  "lastSelectedBin ready3_demo = 0" "echo_600 ready3_demo" "clock_at 3500 ready3_demo"
  "binRequested ready3_demo" "requestedBin ready3_demo = 3" "\<not> gateLockout ready3_demo"
  "\<not> inventoryRequested ready3_demo" "tx ready3_demo = []"
  using homed_demo_at[OF demo_at]
  by (simp_all add: ready3_demo_def queued3_demo_def waiting_demo_def resetCmdBuf_def
        homed_demo_fields echo_600_def clock_at_def)

lemma run_ready3: "runInventorySequence ready3_demo = Some (True, done3_demo)"
  unfolding done3_demo_def using ready3_at
  by (intro runInventorySequence_demo_bin3) simp_all

lemma done3_at:
  "currentBin done3_demo = 3" "lastSelectedBin done3_demo = 3" "\<not> binRequested done3_demo"
  "\<not> inventoryPending done3_demo" "\<not> inventoryRequested done3_demo"
  "requestedBin done3_demo = - 1" "tx done3_demo = [''HI'', ''bin0,HI,8000'']"
  "moveOneBinCalls done3_demo = 3"
  using ready3_at
  by (simp_all add: done3_demo_def inventoried_bin3_def inventoried_def print_int_def
        print_nat_demo print_nat.simps[of 0])
     (simp_all add: ready3_demo_def queued3_demo_def waiting_demo_def resetCmdBuf_def
        homed_demo_fields)

lemma command_i_ready3: "loop_command ''i'' ready3_demo = Some (resetCmdBuf done3_demo)"
proof -
  have "ready3_demo\<lparr>inventoryRequested := True, inventoryRequested := False\<rparr> = ready3_demo"
    using ready3_at(14) by (cases ready3_demo) simp
  with ready3_at(6,7,13) run_ready3 show ?thesis
    by (simp add: loop_command_def to_lower_def Let_def)
qed

theorem queued_bin_waits_for_inventory_witness:
  "loop_command ''bin3'' waiting_demo = Some queued3_demo
   \<and> \<not> inventoryRequested queued3_demo
   \<and> updateBeamDebounce queued3_demo = Some ready3_demo
   \<and> inventoryPending ready3_demo \<and> \<not> inv_due ready3_demo
   \<and> binRequested ready3_demo \<and> requestedBin ready3_demo = 3 \<and> currentBin ready3_demo = 0
   \<and> tryRunQueuedCommands ready3_demo = Some ready3_demo
   \<and> loop_command ''i'' ready3_demo = Some (resetCmdBuf done3_demo)
   \<and> runInventorySequence ready3_demo = Some (True, done3_demo)
   \<and> \<not> gateLockout ready3_demo
   \<and> (\<exists>s1 ok s2. inventory_measure ready3_demo = Some (True, s1) \<and> \<not> inventoryPending s1
         \<and> moveToBin (requestedBin ready3_demo) (s1\<lparr>binRequested := False, requestedBin := - 1\<rparr>)
             = (ok, s2)
         \<and> done3_demo = (if ok then s2\<lparr>lastSelectedBin := requestedBin ready3_demo\<rparr> else s2)
         \<and> (ok \<longrightarrow> currentBin done3_demo = requestedBin ready3_demo
                   \<and> lastSelectedBin done3_demo = requestedBin ready3_demo)
         \<and> \<not> binRequested done3_demo \<and> \<not> inventoryPending done3_demo)
   \<and> currentBin done3_demo = 3 \<and> lastSelectedBin done3_demo = 3
   \<and> \<not> binRequested done3_demo \<and> \<not> inventoryPending done3_demo"
proof -
  have n: "\<not> inventoryRequested queued3_demo"
    by (simp add: queued3_demo_def waiting_demo_def resetCmdBuf_def homed_demo_fields)
  have d: "\<not> inv_due ready3_demo" using ready3_at(14) by (simp add: inv_due_def)
  note a = queued_bin_waits_for_inventory[where s = ready3_demo and sd = done3_demo,
             THEN conjunct2, THEN conjunct2, THEN conjunct1, rule_format, OF conjI,
             OF ready3_at(7) d]
  have pre: "runInventorySequence ready3_demo = Some (True, done3_demo) \<and> binRequested ready3_demo
      \<and> \<not> gateLockout ready3_demo \<and> 0 \<le> currentBin ready3_demo \<and> currentBin ready3_demo \<le> 3"
    using run_ready3 ready3_at by simp
  note b = queued_bin_waits_for_inventory[where s = ready3_demo and sd = done3_demo,
             THEN conjunct2, THEN conjunct2, THEN conjunct2, THEN conjunct2, THEN conjunct2,
             rule_format, OF pre]
  from queue_bin3 n rearm_queued3 ready3_at(5,7,11,12,13) d a command_i_ready3 run_ready3 b
       done3_at(1-4)
  show ?thesis by (intro conjI)
qed

text \<open>
  The same with \<^verbatim>\<open>i\<close> typed before the gate re-armed: the drain runs both requests
  once. A second bin command while locked replaces the queued target.
\<close>

definition both_demo :: st where
  "both_demo = ready3_demo\<lparr>inventoryRequested := True\<rparr>"

lemma both_demo_drain:
  "inv_due both_demo" "tryRunQueuedCommands both_demo = Some done3_demo"
proof -
  show d: "inv_due both_demo"
    using ready3_at by (simp add: inv_due_def both_demo_def)
  have "both_demo\<lparr>inventoryRequested := False\<rparr> = ready3_demo"
    using ready3_at(14) by (cases ready3_demo) (simp add: both_demo_def)
  with run_ready3 show "tryRunQueuedCommands both_demo = Some done3_demo"
    by (simp add: drain_inventory[OF d])
qed

theorem queue_drain_once_witness:
  "inv_due both_demo \<and> binRequested both_demo
   \<and> tryRunQueuedCommands both_demo = Some done3_demo
   \<and> \<not> inventoryRequested done3_demo \<and> \<not> inv_due done3_demo \<and> \<not> binRequested done3_demo
   \<and> \<not> bin_due done3_demo
   \<and> tryRunQueuedCommands done3_demo = Some done3_demo
   \<and> moveOneBinCalls done3_demo = 3
   \<and> parseBinCommand ''bin1'' = Some 1 \<and> gateLockout queued3_demo
   \<and> requestedBin queued3_demo = 3
   \<and> loop_command ''bin1'' queued3_demo
       = Some (resetCmdBuf (queued3_demo\<lparr>binRequested := True, requestedBin := 1\<rparr>))"
proof -
  have g: "gateLockout queued3_demo" "requestedBin queued3_demo = 3"
    by (simp_all add: queued3_demo_def waiting_demo_def resetCmdBuf_def)
  have b: "binRequested both_demo" using ready3_at(11) by (simp add: both_demo_def)
  note t = queue_drain_once[where s = both_demo and sd = done3_demo,
             THEN conjunct2, THEN conjunct2, THEN conjunct1, rule_format,
             OF both_demo_drain(2), THEN conjunct1, rule_format, OF both_demo_drain(1)]
  have nd: "\<not> inv_due done3_demo \<and> \<not> bin_due done3_demo"
    using done3_at by (simp add: inv_due_def bin_due_def)
  note u = queue_drain_once[where s = done3_demo,
             THEN conjunct2, THEN conjunct2, THEN conjunct2, THEN conjunct1, rule_format, OF nd]
  note v = queue_drain_once[where s = queued3_demo and cmd = "''bin1''" and k = 1,
             THEN conjunct1, rule_format, OF conjI, OF parse_bin3(2) disjI1, OF g(1)]
  from both_demo_drain b t nd u v g done3_at(3,8) parse_bin3(2)
  show ?thesis by (intro conjI) simp_all
qed

section \<open>The E-stop latch\<close>

text \<open>
  \<^verbatim>\<open>homeRoutine\<close> begins with \<^verbatim>\<open>estop = false\<close>: it runs from a state with the latch
  set as from the same state with the latch clear.
\<close>

lemma homeRoutine_resets_estop: "homeRoutine (s\<lparr>estop := True\<rparr>) = homeRoutine (s\<lparr>estop := False\<rparr>)"
proof -
  have "home_reset (s\<lparr>estop := True\<rparr>) = home_reset (s\<lparr>estop := False\<rparr>)"
    by (simp add: home_reset_def)
  then show ?thesis by (simp add: homeRoutine_def)
qed

text \<open>
  One pass of \<^verbatim>\<open>loop\<close> in which the latch is set and cleared again. The carousel is
  homed and re-arming with an inventory queued. The serial line delivers \<^verbatim>\<open>e\<close> at the
  first poll and the line \<^verbatim>\<open>h\<close> at the second arrival; the switch is released for
  the first eight readings and follows the example carousel after them.
\<close>

definition race_demo :: st where
  "race_demo = demo\<lparr>homed := True, currentBin := 0, lastSelectedBin := 0,
     encoderGapThresholdSteps := 32, gateLockout := True, gateOpenedAtMs := 500,
     clockPos := 5, inventoryRequested := True,
     serialIn := (\<lambda>k. if k = 0 then ''e'' else if k = 1 then [CHR ''h'', CHR 0x0A] else []),
     indexIn := (\<lambda>k. 8 \<le> k \<and> demo_index (k - 8))\<rparr>"

definition armed_demo :: st where
  "armed_demo = race_demo\<lparr>beamPos := 1, clockPos := 7, gateLockout := False,
     gateOpenedAtMs := 0, inventoryPending := True\<rparr>"

definition stopped_demo :: st where
  "stopped_demo = armed_demo\<lparr>inventoryRequested := False, moveOneBinCalls := 1,
     indexPos := 8, serialPos := 1, estop := True\<rparr>"

definition typed_demo :: st where
  "typed_demo = stopped_demo\<lparr>serialPos := 2, cmdBuf := ''h''\<rparr>"

lemma race_gate_input: "gate_input race_demo = race_demo\<lparr>beamPos := 1, clockPos := 6\<rparr>"
  by (simp add: gate_input_def race_demo_def demo_def beamBlockedRaw_def millis_def
        beam_debounce_def Let_def BEAM_DEBOUNCE_MS_def)

lemma race_gate_rearm: "gate_rearm (race_demo\<lparr>beamPos := 1, clockPos := 6\<rparr>) = (True, armed_demo)"
  by (simp add: gate_rearm_def millis_def BEAM_ARM_DELAY_MS_def armed_demo_def race_demo_def
        demo_def)

lemma race_move: "moveOneBin (armed_demo\<lparr>inventoryRequested := False\<rparr>) = (False, stopped_demo)"
proof -
  let ?a = "armed_demo\<lparr>inventoryRequested := False, moveOneBinCalls := Suc 0\<rparr>"
  let ?b = "enableDriver True ?a"
  have r: "confirmReleased ?b = (True, advance 0 0 7 ?b)"
    by (intro confirmReleased_ok)
       (simp add: enableDriver_def armed_demo_def race_demo_def demo_def)
  have sr: "seek_release SEEK_DELAY_US 0 0 ?b = (True, 0, advance 0 0 7 ?b)"
    by (subst seek_release.simps) (simp only: r prod.case bool.case)
  have sp: "seek_press 0 0 0 (advance 0 0 7 ?b) = (False, 0, stopped_demo)"
    by (subst seek_press.simps)
       (simp add: indexPressedRaw_def stepPulseChecked_def pollEstopDuringMotion_def
          serialArrive_def Let_def advance_def enableDriver_def stopped_demo_def armed_demo_def
          race_demo_def demo_def)
  have c: "moveOneBinCalls armed_demo = 0" "homed armed_demo" "currentBin armed_demo = 0"
    by (simp_all add: armed_demo_def race_demo_def demo_def)
  show ?thesis
    by (simp add: moveOneBin_def Let_def c seekNextPressEventCCW_def sr sp)
qed

lemma race_sequence:
  "runInventorySequence (armed_demo\<lparr>inventoryRequested := False\<rparr>) = Some (False, stopped_demo)"
proof -
  have "nat 2 = Suc (Suc 0)" by simp
  then have m: "moveBins 2 (armed_demo\<lparr>inventoryRequested := False\<rparr>) = (False, stopped_demo)"
    by (simp only: moveBins_def moveBins_loop.simps race_move prod.case bool.case)
  have "inventory_measure (armed_demo\<lparr>inventoryRequested := False\<rparr>) = Some (False, stopped_demo)"
    by (simp add: inventory_measure_def m) (simp add: armed_demo_def race_demo_def demo_def)
  then show ?thesis by (simp add: runInventorySequence_measure)
qed

lemma race_update: "updateBeamDebounce race_demo = Some stopped_demo"
proof -
  have d: "inv_due armed_demo"
    by (simp add: inv_due_def armed_demo_def race_demo_def demo_def)
  show ?thesis
    by (simp only: updateBeamDebounce_gate_input race_gate_input race_gate_rearm prod.case
          bool.case drain_inventory[OF d] race_sequence option.case)
qed

lemma race_read: "readCommandLine stopped_demo = (True, typed_demo)"
  by (simp add: readCommandLine_def serialArrive_def Let_def is_eol_def CMD_BUF_LEN_def
        typed_demo_def stopped_demo_def armed_demo_def race_demo_def demo_def)

lemma race_home: "loop_command ''h'' typed_demo = Some (homed_demo (resetCmdBuf typed_demo))"
proof -
  have a: "switch_at 0 (resetCmdBuf typed_demo)"
    by (simp add: switch_at_def resetCmdBuf_def typed_demo_def stopped_demo_def armed_demo_def
          race_demo_def demo_def)
  have b: "silent (resetCmdBuf typed_demo)"
    by (simp add: silent_def resetCmdBuf_def typed_demo_def stopped_demo_def armed_demo_def
          race_demo_def demo_def)
  show ?thesis
    by (simp add: loop_command_def to_lower_def homeRoutine_demo[OF a b])
qed

text \<open>
  Claim C1. The claim does not hold of the code. In the pass below the queued
  inventory starts when the gate re-arms, the \<^verbatim>\<open>e\<close> stops it before the first pulse and
  sets the latch; the same pass then reads the line \<^verbatim>\<open>h\<close> and calls
  \<^verbatim>\<open>homeRoutine\<close>, which clears the latch and turns the carousel by 593 pulses. The
  pass ends homed with the latch clear, and no reset has taken place.
\<close>

theorem estop_cleared_by_homing:
  "\<not> estop race_demo
   \<and> updateBeamDebounce race_demo = Some stopped_demo
   \<and> estop stopped_demo \<and> pulses stopped_demo = pulses race_demo
   \<and> tryRunQueuedCommands stopped_demo = Some stopped_demo
   \<and> readCommandLine stopped_demo = (True, typed_demo) \<and> estop typed_demo
   \<and> loop race_demo = Some (homed_demo (resetCmdBuf typed_demo))
   \<and> \<not> estop (homed_demo (resetCmdBuf typed_demo))
   \<and> homed (homed_demo (resetCmdBuf typed_demo))
   \<and> pulses (homed_demo (resetCmdBuf typed_demo)) = pulses race_demo + 593"
proof -
  have a: "\<not> estop race_demo" by (simp add: race_demo_def demo_def)
  have b: "estop stopped_demo" "pulses stopped_demo = pulses race_demo" "estop typed_demo"
    by (simp_all add: typed_demo_def stopped_demo_def armed_demo_def)
  have c: "tryRunQueuedCommands stopped_demo = Some stopped_demo"
    using b(1) by (simp add: tryRunQueuedCommands.simps[of stopped_demo])
  have t: "trimInPlace (c_str (cmdBuf typed_demo)) = ''h''"
    by (simp add: typed_demo_def trimInPlace_def c_str_def is_blank_def)
  have l: "loop race_demo = Some (homed_demo (resetCmdBuf typed_demo))"
    by (simp add: loop_def a race_update c race_read t race_home)
  have d: "\<not> estop (homed_demo (resetCmdBuf typed_demo))"
    "homed (homed_demo (resetCmdBuf typed_demo))"
    "pulses (homed_demo (resetCmdBuf typed_demo)) = pulses race_demo + 593"
    by (simp_all add: homed_demo_def home_reset_def resetCmdBuf_def typed_demo_def
          stopped_demo_def armed_demo_def)
  from a race_update b c race_read l d show ?thesis by (intro conjI)
qed

section \<open>A sensor without echo\<close>

text \<open>
  \<^verbatim>\<open>medianOfBlockCm\<close> counts the valid pings only and tests nothing but the E-stop:
  when no ping has an echo and no byte arrives, its loop does not end. The window of
  \<^verbatim>\<open>readRobustDistance4sCm\<close> is tested between blocks, so the call does not return
  once it has entered a block.
\<close>

definition echo_dead :: "st \<Rightarrow> bool" where
  "echo_dead s = (\<forall>k. echoIn s k = 0)"

lemma medianOfBlock_fill_dead_raw:
  assumes a: "medianOfBlock_fill xs s = Some y"
  shows "\<not> (quiet s \<and> echo_dead s \<and> length xs < US_BLOCK_SIZE)"
proof (rule medianOfBlock_fill.raw_induct[where
        P = "\<lambda>xs s y. \<not> (quiet s \<and> echo_dead s \<and> length xs < US_BLOCK_SIZE)", OF _ a],
       goal_cases)
  case (1 fill xs s y)
  show ?case
  proof
    assume h: "quiet s \<and> echo_dead s \<and> length xs < US_BLOCK_SIZE"
    let ?s1 = "advance 0 1 0 s"
    let ?s2 = "?s1\<lparr>echoPos := echoPos s + 1\<rparr>"
    have p: "pollEstopDuringMotion s = ?s1" using h by (simp add: pollEstop_quiet)
    have e: "\<not> estop ?s1" using h by (simp add: quiet_def advance_def)
    have g: "pingDistanceCm ?s1 = (None, ?s2)"
      using h by (simp add: pingDistanceCm_def pulseIn_def advance_def echo_dead_def)
    have q: "quiet ?s2 \<and> echo_dead ?s2 \<and> length xs < US_BLOCK_SIZE"
      using h by (simp add: quiet_def echo_dead_def advance_def)
    have lt: "length xs < US_BLOCK_SIZE" using h by simp
    from 1(2) have "fill xs ?s2 = Some y"
      by (simp only: lt if_True p Let_def e if_False g prod.case option.case)
    from 1(1)[OF this] q show False by simp
  qed
qed

lemma medianOfBlock_fill_dead:
  "quiet s \<Longrightarrow> echo_dead s \<Longrightarrow> length xs < US_BLOCK_SIZE \<Longrightarrow> medianOfBlock_fill xs s = None"
  using medianOfBlock_fill_dead_raw[of xs s] by (cases "medianOfBlock_fill xs s") auto

lemma medianOfBlockCm_dead: "quiet s \<Longrightarrow> echo_dead s \<Longrightarrow> medianOfBlockCm s = None"
  by (simp add: medianOfBlockCm_def medianOfBlock_fill_dead US_BLOCK_SIZE_def)

lemma readRobustDistance4sCm_dead:
  assumes "quiet s" "echo_dead s"
    and "clockIn s (clockPos s + 1) - clockIn s (clockPos s) < US_WINDOW_MS"
  shows "readRobustDistance4sCm s = None"
proof -
  let ?t0 = "clockIn s (clockPos s)"
  let ?s1 = "s\<lparr>clockPos := clockPos s + 1\<rparr>"
  let ?now = "clockIn s (clockPos s + 1)"
  let ?s2 = "s\<lparr>clockPos := clockPos s + 1 + 1\<rparr>"
  have m0: "millis s = (?t0, ?s1)" by (simp add: millis_def)
  have m1: "millis ?s1 = (?now, ?s2)" by (simp add: millis_def)
  have q2: "quiet ?s2" "echo_dead ?s2" using assms(1,2) by (simp_all add: quiet_def echo_dead_def)
  let ?s3 = "advance 0 1 0 ?s2"
  have p: "pollEstopDuringMotion ?s2 = ?s3" by (rule pollEstop_quiet[OF q2(1)])
  have q3: "quiet ?s3" "echo_dead ?s3"
    using q2 by (simp_all add: quiet_def echo_dead_def advance_def)
  have e: "\<not> estop ?s3" using q3(1) by (simp add: quiet_def)
  have b: "medianOfBlockCm ?s3 = None" by (rule medianOfBlockCm_dead[OF q3])
  have "robust_window ?t0 [] ?s1 = None"
    by (subst robust_window.simps)
       (simp only: m1 prod.case assms(3) if_True Let_def p e if_False b option.case)
  then show ?thesis by (simp add: readRobustDistance4sCm_def m0)
qed

text \<open>
  The example carousel with a sensor that gives no echo, after power-up and after
  homing with an inventory pending.
\<close>

definition dead_demo :: st where
  "dead_demo = demo\<lparr>echoIn := (\<lambda>k. 0)\<rparr>"

definition dead_pending_demo :: st where
  "dead_pending_demo = (homed_demo dead_demo)\<lparr>inventoryPending := True\<rparr>"

lemma dead_demo_at: "switch_at 0 dead_demo" "silent dead_demo"
  by (simp_all add: dead_demo_def demo_def switch_at_def silent_def)

lemma dead_demo_measure: "readRobustDistance4sCm dead_demo = None"
  by (intro readRobustDistance4sCm_dead)
     (simp_all add: quiet_def echo_dead_def dead_demo_def demo_def US_WINDOW_MS_def)

lemma dead_pending_demo_sequence: "runInventorySequence dead_pending_demo = None"
proof -
  note at = homed_demo_at[OF dead_demo_at]
  let ?s = dead_pending_demo
  have f: "switch_at 20 ?s" "silent ?s" "\<not> estop ?s" "homed ?s" "currentBin ?s = 0"
    "\<not> beamStableBlocked ?s" "inventoryPending ?s" "lastSelectedBin ?s = 0"
    using at by (simp_all add: dead_pending_demo_def)
       (simp add: homed_demo_def home_reset_def dead_demo_def demo_def)
  let ?s1 = "(moved 200 400 172 ?s)\<lparr>moveOneBinCalls := moveOneBinCalls ?s + 2, currentBin := 2\<rparr>"
  have m: "moveBins 2 ?s = (True, ?s1)" by (rule moveBins_two[OF f(1-5)])
  have q: "quiet ?s1" using f(2,3) by (simp add: quiet_iff)
  have d: "echo_dead ?s1"
    by (simp add: echo_dead_def dead_pending_demo_def homed_demo_def home_reset_def
          dead_demo_def demo_def)
  have c: "clockIn ?s1 (clockPos ?s1 + 1) - clockIn ?s1 (clockPos ?s1) < US_WINDOW_MS"
    by (simp add: dead_pending_demo_def homed_demo_def home_reset_def dead_demo_def demo_def
          US_WINDOW_MS_def)
  have r: "readRobustDistance4sCm ?s1 = None" by (rule readRobustDistance4sCm_dead[OF q d c])
  have pre: "\<not> (\<not> homed ?s)" "\<not> (\<not> inventoryPending ?s)"
    "\<not> (lastSelectedBin ?s < 0 \<or> lastSelectedBin ?s > 3)"
    using f by simp_all
  have "inventory_measure ?s = None"
    unfolding inventory_measure_def
    by (simp only: pre f(6) if_False m prod.case bool.case r option.case)
  then show ?thesis by (simp add: runInventorySequence_measure)
qed

text \<open>
  Claim C6. The claim does not hold of the code. With a sensor that gives no echo and
  a silent serial line the call collects no median, fewer than five, and returns
  nothing: neither the undefined result nor any other. Homing does not use the sensor
  and succeeds; the inventory sequence that follows rotates the carousel and then does
  not return either.
\<close>

theorem readRobustDistance4sCm_hangs_without_echo:
  "echo_dead dead_demo \<and> \<not> estop dead_demo
   \<and> medianOfBlockCm (pollEstopDuringMotion dead_demo) = None
   \<and> readRobustDistance4sCm dead_demo = None
   \<and> homeRoutine dead_demo = Some (True, homed_demo dead_demo)
   \<and> inventoryPending dead_pending_demo \<and> homed dead_pending_demo
   \<and> runInventorySequence dead_pending_demo = None"
proof -
  have a: "echo_dead dead_demo" "\<not> estop dead_demo" "quiet dead_demo"
    by (simp_all add: echo_dead_def quiet_def dead_demo_def demo_def)
  have q: "quiet (pollEstopDuringMotion dead_demo)" "echo_dead (pollEstopDuringMotion dead_demo)"
    using a by (simp_all add: pollEstop_quiet) (simp add: echo_dead_def advance_def)
  have b: "medianOfBlockCm (pollEstopDuringMotion dead_demo) = None"
    by (rule medianOfBlockCm_dead[OF q])
  have h: "homeRoutine dead_demo = Some (True, homed_demo dead_demo)"
    by (rule homeRoutine_demo[OF dead_demo_at])
  have p: "inventoryPending dead_pending_demo" "homed dead_pending_demo"
    using homed_demo_at(4)[OF dead_demo_at] by (simp_all add: dead_pending_demo_def)
  from a(1,2) b dead_demo_measure h p dead_pending_demo_sequence show ?thesis by (intro conjI)
qed

end
